theory Spec2Isabelle
  imports Complex_Main "HOL-Library.Multiset"
begin

section \<open>Data model (src/types.ts)\<close>

text \<open>
  A JavaScript string is a sequence of UTF-16 code units; a code unit is modelled by its
  number. \<open>u16\<close> writes an ASCII literal as such a sequence.
\<close>

type_synonym jsstring = "nat list"

definition u16 :: "string \<Rightarrow> jsstring" where
  "u16 s = map of_char s"

text \<open>
  A JavaScript number as the parser can produce it: \<open>NaN\<close>, a finite double with
  integer value \<open>n\<close>, or one of the two infinities. Which integers are doubles is
  decided by \<open>to_double\<close> below. Negative zero is identified with zero, as \<open>===\<close>
  and \<open>Set.prototype.has\<close> do.
\<close>

datatype number = NaN | Num int | PosInf | NegInf

definition isNaN :: "number \<Rightarrow> bool" where
  "isNaN x = (x = NaN)"

record player =
  rank :: number
  name :: jsstring
  position :: jsstring

text \<open>
  \<open>DraftBoardData\<close> is a JavaScript object used as a dictionary from team label to that
  team's column. Its keys are kept in insertion order, which \<open>Object.keys\<close> reads back,
  so it is an association list; \<open>obj_set\<close> is the assignment \<open>board[key] = value\<close>
  and \<open>obj_get\<close> the read \<open>board[key]\<close>.
\<close>

type_synonym DraftBoardData = "(jsstring \<times> player option list) list"

fun obj_set :: "'k \<Rightarrow> 'v \<Rightarrow> ('k \<times> 'v) list \<Rightarrow> ('k \<times> 'v) list" where
  "obj_set k v [] = [(k, v)]"
| "obj_set k v ((k', v') # kvs) =
     (if k' = k then (k, v) # kvs else (k', v') # obj_set k v kvs)"

definition obj_get :: "('k \<times> 'v) list \<Rightarrow> 'k \<Rightarrow> 'v option" where
  "obj_get obj k = map_of obj k"

definition obj_keys :: "('k \<times> 'v) list \<Rightarrow> 'k list" where
  "obj_keys obj = map fst obj"

section \<open>Number to string\<close>

text \<open>
  The decimal digits of a natural number, most significant first, as the template literal
  \<open>`Team ${t + 1}`\<close> renders an integer.
\<close>

fun digits10 :: "nat \<Rightarrow> jsstring" where
  "digits10 n = (if n < 10 then [48 + n] else digits10 (n div 10) @ [48 + n mod 10])"

declare digits10.simps [simp del]

definition teamKey :: "nat \<Rightarrow> jsstring" where
  "teamKey t = u16 ''Team '' @ digits10 (t + 1)"

section \<open>The snake draft assigner (src/App.tsx, generateSnakeDraft)\<close>

text \<open>\<open>Math.ceil(numPicks / numTeams)\<close> for a positive divisor.\<close>

definition ceil_div :: "nat \<Rightarrow> nat \<Rightarrow> nat" where
  "ceil_div a b = (if a mod b = 0 then a div b else a div b + 1)"

text \<open>The first loop: \<open>numRounds\<close> fresh rows of \<open>numTeams\<close> nulls.\<close>

definition init_rounds :: "nat \<Rightarrow> nat \<Rightarrow> player option list list" where
  "init_rounds numRounds numTeams = replicate numRounds (replicate numTeams None)"

text \<open>The column a pick goes to: \<open>teamIndex\<close> of the callback of \<open>players.forEach\<close>.\<close>

definition teamIndexOf :: "nat \<Rightarrow> nat \<Rightarrow> nat" where
  "teamIndexOf numTeams index =
     (let round = index div numTeams;
          pickInRound = index mod numTeams;
          isForwardRound = (round mod 2 = 0)
      in if isForwardRound then pickInRound else numTeams - 1 - pickInRound)"

text \<open>
  \<open>players.forEach((player, index) => ...)\<close>: the players from position \<open>index\<close> on are
  written into \<open>rounds\<close>, each under the guard of the source.
\<close>

fun place_players ::
  "nat \<Rightarrow> nat \<Rightarrow> player list \<Rightarrow> player option list list \<Rightarrow> player option list list" where
  "place_players numTeams index [] rounds = rounds"
| "place_players numTeams index (p # ps) rounds =
     (let round = index div numTeams;
          teamIndex = teamIndexOf numTeams index
      in place_players numTeams (index + 1) ps
           (if round < length rounds \<and> teamIndex < numTeams
            then rounds[round := (rounds ! round)[teamIndex := Some p]]
            else rounds))"

text \<open>The last loop: one key per team, holding that team's cell of every round.\<close>

definition team_column :: "player option list list \<Rightarrow> nat \<Rightarrow> nat \<Rightarrow> player option list" where
  "team_column rounds numRounds t = map (\<lambda>r. rounds ! r ! t) [0..<numRounds]"

definition build_board :: "player option list list \<Rightarrow> nat \<Rightarrow> nat \<Rightarrow> DraftBoardData" where
  "build_board rounds numRounds numTeams =
     foldl (\<lambda>board t. obj_set (teamKey t) (team_column rounds numRounds t) board)
       [] [0..<numTeams]"

definition generateSnakeDraft :: "player list \<Rightarrow> int \<Rightarrow> DraftBoardData" where
  "generateSnakeDraft players numTeams =
     (if players = [] \<or> numTeams \<le> 0 then []
      else let n = nat numTeams;
               numPicks = length players;
               numRounds = ceil_div numPicks n;
               rounds = place_players n 0 players (init_rounds numRounds n)
           in build_board rounds numRounds n)"

section \<open>The picked set (src/App.tsx, handleTogglePlayerPicked)\<close>

definition togglePicked :: "number \<Rightarrow> number set \<Rightarrow> number set" where
  "togglePicked playerRank prevPicked =
     (if playerRank \<in> prevPicked then prevPicked - {playerRank}
      else insert playerRank prevPicked)"

section \<open>The board as rendered (src/components/DraftBoard.tsx, DraftBoard)\<close>

text \<open>
  The overall pick number shown on the card of a cell. The indices come from
  \<open>Array.prototype.map\<close> and are natural numbers; \<open>numTeams\<close> is the property passed
  to the component.
\<close>

definition overallPick :: "int \<Rightarrow> nat \<Rightarrow> nat \<Rightarrow> int" where
  "overallPick numTeams roundIndex teamIndex =
     (let isForwardRound = (roundIndex mod 2 = 0);
          pickInRound = (if isForwardRound then int teamIndex else numTeams - 1 - int teamIndex)
      in int roundIndex * numTeams + pickInRound + 1)"

text \<open>
  \<open>boardData[teamName]?.[roundIndex] ?? null\<close> with \<open>teamName\<close> the key at position
  \<open>teamIndex\<close> of \<open>Object.keys(boardData)\<close>; \<open>numRounds_of\<close> is
  \<open>boardData[teamKeys[0]]?.length || 0\<close>. \<open>card_at\<close> is the cell as rendered: a player
  card with its overall pick number, or nothing for an empty card.
  \<open>DraftBoard_cards\<close> lists the player cards in the order the component emits them:
  one round after the other, and within a round the team columns from left to right.
\<close>

definition board_player :: "DraftBoardData \<Rightarrow> nat \<Rightarrow> nat \<Rightarrow> player option" where
  "board_player boardData teamIndex roundIndex =
     (case obj_get boardData (obj_keys boardData ! teamIndex) of
        None \<Rightarrow> None
      | Some column \<Rightarrow> if roundIndex < length column then column ! roundIndex else None)"

definition numRounds_of :: "DraftBoardData \<Rightarrow> nat" where
  "numRounds_of boardData =
     (case obj_keys boardData of
        [] \<Rightarrow> 0
      | teamName # _ \<Rightarrow> (case obj_get boardData teamName of None \<Rightarrow> 0 | Some column \<Rightarrow> length column))"

definition card_at :: "DraftBoardData \<Rightarrow> int \<Rightarrow> nat \<Rightarrow> nat \<Rightarrow> (player \<times> int) list" where
  "card_at boardData numTeams roundIndex teamIndex =
     (case board_player boardData teamIndex roundIndex of
        None \<Rightarrow> []
      | Some player \<Rightarrow> [(player, overallPick numTeams roundIndex teamIndex)])"

definition DraftBoard_cards :: "DraftBoardData \<Rightarrow> int \<Rightarrow> (player \<times> int) list" where
  "DraftBoard_cards boardData numTeams =
     concat (map (\<lambda>roundIndex.
                concat (map (\<lambda>teamIndex. card_at boardData numTeams roundIndex teamIndex)
                         [0..<length (obj_keys boardData)]))
             [0..<numRounds_of boardData])"

section \<open>Notions used in the statements and proofs\<close>

text \<open>
  \<open>cell_index n r t\<close> is the zero-based position in the player list of the pick that
  the snake order sends to round \<open>r\<close>, column \<open>t\<close>; \<open>snake_cell\<close> is the content
  that cell has for a given player list; \<open>board_cells\<close> lists every cell of a board;
  \<open>digits_value\<close> reads a decimal digit string; \<open>sample_players k\<close> is a list of
  \<open>k\<close> players ranked \<open>1\<close> to \<open>k\<close>.
\<close>

definition cell_index :: "nat \<Rightarrow> nat \<Rightarrow> nat \<Rightarrow> nat" where
  "cell_index n r t = r * n + (if r mod 2 = 0 then t else n - 1 - t)"

definition snake_cell :: "nat \<Rightarrow> player list \<Rightarrow> nat \<Rightarrow> nat \<Rightarrow> player option" where
  "snake_cell n ps r t =
     (if cell_index n r t < length ps then Some (ps ! cell_index n r t) else None)"

definition board_cells :: "DraftBoardData \<Rightarrow> player option list" where
  "board_cells board = concat (map snd board)"

definition digits_value :: "jsstring \<Rightarrow> nat" where
  "digits_value z = foldl (\<lambda>a c. 10 * a + (c - 48)) 0 z"

definition sample_players :: "nat \<Rightarrow> player list" where
  "sample_players k =
     map (\<lambda>i. \<lparr>rank = Num (int i), name = u16 ''Player'', position = u16 ''QB''\<rparr>) [1..<k + 1]"

section \<open>The text parser (src/App.tsx, parsePlayerText)\<close>

text \<open>
  White space as \<open>String.prototype.trim\<close> and the regular expression class \<open>\s\<close>
  have it: the ECMAScript WhiteSpace and LineTerminator code points.
\<close>

definition is_ws :: "nat \<Rightarrow> bool" where
  "is_ws c = (c = 9 \<or> c = 10 \<or> c = 11 \<or> c = 12 \<or> c = 13 \<or> c = 32 \<or> c = 160 \<or> c = 5760
     \<or> (8192 \<le> c \<and> c \<le> 8202) \<or> c = 8232 \<or> c = 8233 \<or> c = 8239 \<or> c = 8287
     \<or> c = 12288 \<or> c = 65279)"

text \<open>\<open>s.trim()\<close>: leading and trailing white space removed.\<close>

definition trim :: "jsstring \<Rightarrow> jsstring" where
  "trim s = rev (dropWhile is_ws (rev (dropWhile is_ws s)))"

text \<open>
  \<open>s.split('\n')\<close> with \<open>sep = 10\<close>: the pieces between separators; the empty
  string gives one empty piece.
\<close>

fun split_on :: "nat \<Rightarrow> jsstring \<Rightarrow> jsstring list" where
  "split_on sep [] = [[]]"
| "split_on sep (c # cs) =
     (if c = sep then [] # split_on sep cs
      else (case split_on sep cs of [] \<Rightarrow> [[c]] | piece # pieces \<Rightarrow> (c # piece) # pieces))"

text \<open>
  \<open>s.split(/\s+/)\<close>: the pieces between maximal runs of white space. A run at the
  start or at the end of the string leaves an empty piece there, as in JavaScript.
\<close>

function split_ws :: "jsstring \<Rightarrow> jsstring list" where
  "split_ws [] = [[]]"
| "split_ws (c # cs) =
     (if is_ws c then [] # split_ws (dropWhile is_ws cs)
      else (case split_ws cs of [] \<Rightarrow> [[c]] | piece # pieces \<Rightarrow> (c # piece) # pieces))"
  by pat_completeness auto
termination
  by (relation "measure length") (auto simp: length_dropWhile_le less_Suc_eq_le)

text \<open>
  The Number value of a mathematical integer: the nearest double, ties to the even
  significand, and an infinity from \<open>2 ^ 1024\<close> on. A double has 53 significant bits;
  \<open>round_magnitude\<close> rounds a magnitude with more bits to 53 of them.
\<close>

fun bit_length :: "nat \<Rightarrow> nat" where
  "bit_length n = (if n = 0 then 0 else Suc (bit_length (n div 2)))"

declare bit_length.simps [simp del]

definition round_magnitude :: "nat \<Rightarrow> nat" where
  "round_magnitude a =
     (let b = bit_length a in
      if b \<le> 53 then a
      else let e = b - 53;
               q = a div 2 ^ e;
               r = a mod 2 ^ e;
               half = 2 ^ (e - 1)
           in (if half < r \<or> (r = half \<and> odd q) then q + 1 else q) * 2 ^ e)"

definition to_double :: "int \<Rightarrow> number" where
  "to_double m =
     (let v = round_magnitude (nat \<bar>m\<bar>) in
      if 2 ^ 1024 \<le> v then (if m < 0 then NegInf else PosInf)
      else Num (if m < 0 then - int v else int v))"

text \<open>
  \<open>parseInt(s, 10)\<close>: leading white space is skipped, one sign is read, and the longest
  run of decimal digits that follows is read as an integer and converted to a Number
  value; without a digit the result is \<open>NaN\<close>. Whatever follows the digits is ignored.
  For more than twenty digits the language lets an engine approximate before rounding; the
  model rounds the exact integer, as the common engines do.
\<close>

definition is_digit :: "nat \<Rightarrow> bool" where
  "is_digit c = (48 \<le> c \<and> c \<le> 57)"

definition parseInt :: "jsstring \<Rightarrow> number" where
  "parseInt s =
     (let t = dropWhile is_ws s;
          negative = (t \<noteq> [] \<and> hd t = 45);
          u = (if t \<noteq> [] \<and> (hd t = 43 \<or> hd t = 45) then tl t else t);
          z = takeWhile is_digit u
      in if z = [] then NaN
         else to_double ((if negative then - 1 else 1) * int (digits_value z)))"

text \<open>
  \<open>digit_run s\<close> is the run of digits that \<open>parseInt\<close> reads in \<open>s\<close>, used to say
  when the result is \<open>NaN\<close>.
\<close>

definition digit_run :: "jsstring \<Rightarrow> jsstring" where
  "digit_run s =
     (let t = dropWhile is_ws s;
          u = (if t \<noteq> [] \<and> (hd t = 43 \<or> hd t = 45) then tl t else t)
      in takeWhile is_digit u)"

text \<open>\<open>parts.join(' ')\<close> and \<open>parts.slice(1, -1)\<close>.\<close>

fun join_sp :: "jsstring list \<Rightarrow> jsstring" where
  "join_sp [] = []"
| "join_sp [t] = t"
| "join_sp (t # ts) = t @ [32] @ join_sp ts"

definition slice_middle :: "'a list \<Rightarrow> 'a list" where
  "slice_middle parts = take (length parts - 1 - 1) (drop 1 parts)"

text \<open>The two error messages; each quotes the line as it was split off the text.\<close>

definition malformed_msg :: "jsstring \<Rightarrow> jsstring" where
  "malformed_msg line =
     u16 ''Malformed line detected. Each line must have rank, name, and position. Problem line: ''
     @ [34] @ line @ [34]"

definition unparsed_msg :: "jsstring \<Rightarrow> jsstring" where
  "unparsed_msg line =
     u16 ''Could not parse line. Check format. Problem line: '' @ [34] @ line @ [34]"

text \<open>
  The value \<open>{ players, error }\<close> returned by the parser, and what one turn of its
  loop does with a line: skip it (\<open>continue\<close>), abort with a message (\<open>return\<close>), or
  append a player (\<open>players.push\<close>). \<open>check_fields\<close> is the combined test
  \<open>isNaN(rank) || !name || !position\<close> with the message it returns.
\<close>

record parse_result =
  players :: "player list"
  error :: "jsstring option"

datatype line_outcome = Skipped | Failed jsstring | Parsed player

definition check_fields :: "jsstring \<Rightarrow> number \<Rightarrow> jsstring \<Rightarrow> jsstring \<Rightarrow> jsstring option" where
  "check_fields line rankValue nameValue positionValue =
     (if isNaN rankValue \<or> nameValue = [] \<or> positionValue = []
      then Some (unparsed_msg line) else None)"

definition parse_line :: "jsstring \<Rightarrow> line_outcome" where
  "parse_line line =
     (if trim line = [] then Skipped
      else let parts = split_ws (trim line) in
        if length parts < 3 then Failed (malformed_msg line)
        else let rankValue = parseInt (parts ! 0);
                 positionValue = parts ! (length parts - 1);
                 nameValue = join_sp (slice_middle parts)
             in case check_fields line rankValue nameValue positionValue of
                  Some message \<Rightarrow> Failed message
                | None \<Rightarrow>
                    Parsed \<lparr>rank = rankValue, name = nameValue, position = positionValue\<rparr>)"

fun parse_lines :: "jsstring list \<Rightarrow> player list \<Rightarrow> parse_result" where
  "parse_lines [] acc = \<lparr>players = acc, error = None\<rparr>"
| "parse_lines (line # lines) acc =
     (case parse_line line of
        Skipped \<Rightarrow> parse_lines lines acc
      | Failed message \<Rightarrow> \<lparr>players = [], error = Some message\<rparr>
      | Parsed p \<Rightarrow> parse_lines lines (acc @ [p]))"

definition parsePlayerText :: "jsstring \<Rightarrow> parse_result" where
  "parsePlayerText text = parse_lines (split_on 10 (trim text)) []"

section \<open>Re-serialisation of a player list\<close>

text \<open>
  Each record is written as the line \<open>{rank} {name} {position}\<close> with single spaces and
  the lines are joined by line feeds. This follows the wording of the round-trip property;
  the repository has no serialiser. The rank is written as a template literal writes a
  number (Number::toString): the shortest decimal that reads back as the same double,
  in plain digits when it has at most 21 of them and in exponent notation otherwise.
  \<open>decimal_candidate x j\<close> looks for such a decimal among the multiples of \<open>10 ^ j\<close>
  next to \<open>x\<close>, preferring the nearer one; \<open>shortest_decimal\<close> takes the first hit
  from the fewest significant digits upwards.
\<close>

definition decimal_candidate :: "nat \<Rightarrow> nat \<Rightarrow> nat option" where
  "decimal_candidate x j =
     (let lo = x div 10 ^ j * 10 ^ j;
          hi = lo + 10 ^ j;
          lo_ok = (to_double (int lo) = Num (int x));
          hi_ok = (to_double (int hi) = Num (int x))
      in if lo_ok \<and> hi_ok
         then Some (if x - lo < hi - x then lo
                    else if hi - x < x - lo then hi
                    else if even (x div 10 ^ j) then lo else hi)
         else if lo_ok then Some lo
         else if hi_ok then Some hi
         else None)"

fun first_candidate :: "nat \<Rightarrow> nat list \<Rightarrow> nat" where
  "first_candidate x [] = x"
| "first_candidate x (j # js) =
     (case decimal_candidate x j of Some v \<Rightarrow> v | None \<Rightarrow> first_candidate x js)"

definition shortest_decimal :: "nat \<Rightarrow> nat" where
  "shortest_decimal x = first_candidate x (rev [0..<length (digits10 x)])"

definition strip_trailing_zeros :: "jsstring \<Rightarrow> jsstring" where
  "strip_trailing_zeros ds = rev (dropWhile (\<lambda>c. c = 48) (rev ds))"

definition positive_to_string :: "nat \<Rightarrow> jsstring" where
  "positive_to_string x =
     (let ds = digits10 (shortest_decimal x);
          n = length ds
      in if n \<le> 21 then ds
         else let significant = strip_trailing_zeros ds
              in (if length significant = 1 then significant
                  else hd significant # 46 # tl significant)
                 @ [101, 43] @ digits10 (n - 1))"

definition number_to_string :: "number \<Rightarrow> jsstring" where
  "number_to_string x =
     (case x of
        NaN \<Rightarrow> u16 ''NaN''
      | PosInf \<Rightarrow> u16 ''Infinity''
      | NegInf \<Rightarrow> u16 ''-Infinity''
      | Num n \<Rightarrow> if n = 0 then u16 ''0''
                 else if n < 0 then 45 # positive_to_string (nat (- n))
                 else positive_to_string (nat n))"

definition serialize_player :: "player \<Rightarrow> jsstring" where
  "serialize_player p = number_to_string (rank p) @ [32] @ name p @ [32] @ position p"

fun join_nl :: "jsstring list \<Rightarrow> jsstring" where
  "join_nl [] = []"
| "join_nl [l] = l"
| "join_nl (l # ls) = l @ [10] @ join_nl ls"

definition serialize :: "player list \<Rightarrow> jsstring" where
  "serialize ps = join_nl (map serialize_player ps)"

section \<open>Predicates and sample inputs for the parser\<close>

text \<open>\<open>negate\<close> is the unary minus of numbers.\<close>

definition negate :: "number \<Rightarrow> number" where
  "negate x = (case x of NaN \<Rightarrow> NaN | Num n \<Rightarrow> Num (- n) | PosInf \<Rightarrow> NegInf | NegInf \<Rightarrow> PosInf)"

text \<open>
  \<open>ws_free\<close> says that a string has no white space; the first four \<open>text_\<close>
  constants are inputs of two lines each, named after what the lines are.
\<close>

definition ws_free :: "jsstring \<Rightarrow> bool" where
  "ws_free t = (\<forall>c \<in> set t. \<not> is_ws c)"

definition text_rank_then_short :: jsstring where
  "text_rank_then_short = u16 ''x A QB'' @ [10] @ u16 ''1 A''"

definition text_short_then_rank :: jsstring where
  "text_short_then_rank = u16 ''1 A'' @ [10] @ u16 ''x A QB''"

definition text_good_then_short :: jsstring where
  "text_good_then_short = u16 ''1 A QB'' @ [10] @ u16 '' 2 B''"

definition text_good_then_rank :: jsstring where
  "text_good_then_rank = u16 ''1 A QB'' @ [10] @ u16 ''x Bo Jo RB ''"

text \<open>
  \<open>wf_player\<close> is what the round trip needs of a record: a rank that is a double of
  magnitude below \<open>10 ^ 21\<close>, a name that is a single-space join of one or more non-empty tokens without white space,
  and a position that is such a token; \<open>text_huge_rank\<close> has a rank of 310 nines,
  \<open>text_large_rank\<close> the rank \<open>10 ^ 21\<close>, and \<open>text_three_lines\<close> is a sample input
  with irregular spacing, a blank line and a rank followed by a letter.
\<close>

definition wf_player :: "player \<Rightarrow> bool" where
  "wf_player p =
     ((\<exists>n. rank p = Num n \<and> to_double n = Num n \<and> \<bar>n\<bar> < 10 ^ 21)
      \<and> (\<exists>mid. mid \<noteq> [] \<and> (\<forall>t \<in> set mid. t \<noteq> [] \<and> ws_free t) \<and> name p = join_sp mid)
      \<and> position p \<noteq> [] \<and> ws_free (position p))"

definition text_huge_rank :: jsstring where
  "text_huge_rank = replicate 310 57 @ u16 '' A QB''"

definition text_large_rank :: jsstring where
  "text_large_rank = u16 ''1000000000000000000000 A QB''"

definition text_three_lines :: jsstring where
  "text_three_lines =
     u16 ''1 Christian McCaffrey RB'' @ [10] @ u16 ''  2   Tyreek Hill  WR  '' @ [10, 10]
     @ u16 ''-3x A B C QB''"

section \<open>Arithmetic of the snake order\<close>

lemma cell_index_div: "t < n \<Longrightarrow> cell_index n r t div n = r"
  by (auto simp: cell_index_def)

lemma cell_index_team: "t < n \<Longrightarrow> teamIndexOf n (cell_index n r t) = t"
  by (auto simp: cell_index_def teamIndexOf_def Let_def)

lemma teamIndexOf_less: "0 < n \<Longrightarrow> teamIndexOf n i < n"
  by (auto simp: teamIndexOf_def Let_def)

lemma cell_index_inv: "0 < n \<Longrightarrow> cell_index n (i div n) (teamIndexOf n i) = i"
proof -
  assume pos: "0 < n"
  then have "i mod n < n" by simp
  then have bk: "n - 1 - (n - 1 - i mod n) = i mod n" by arith
  show ?thesis
    using bk by (simp add: cell_index_def teamIndexOf_def Let_def)
qed

lemma place_players_length: "length (place_players n i ps rs) = length rs"
  by (induction ps arbitrary: i rs) (auto simp: Let_def)

lemma place_players_row_length:
  "length (place_players n i ps rs ! r) = length (rs ! r)"
proof (induction ps arbitrary: i rs)
  case Nil
  then show ?case by simp
next
  case (Cons p ps)
  then show ?case by (auto simp: Let_def nth_list_update)
qed

lemma place_players_cell:
  assumes "0 < n" "r < length rs" "t < n" "\<forall>r < length rs. length (rs ! r) = n"
     "i + length ps \<le> length rs * n"
  shows "place_players n i ps rs ! r ! t =
     (if i \<le> cell_index n r t \<and> cell_index n r t < i + length ps
      then Some (ps ! (cell_index n r t - i)) else rs ! r ! t)"
  using assms
proof (induction ps arbitrary: i rs)
  case Nil
  then show ?case by auto
next
  case (Cons p ps)
  let ?rs' = "rs[i div n := (rs ! (i div n))[teamIndexOf n i := Some p]]"
  have ilt: "i < length rs * n" using Cons.prems by simp
  then have rd: "i div n < length rs"
    using Cons.prems(1) by (simp add: less_mult_imp_div_less)
  have ti: "teamIndexOf n i < n" using Cons.prems(1) by (rule teamIndexOf_less)
  have step: "place_players n i (p # ps) rs = place_players n (Suc i) ps ?rs'"
    using rd ti by (simp add: Let_def)
  have len': "\<forall>r < length ?rs'. length (?rs' ! r) = n"
    using Cons.prems(4) rd by (auto simp: nth_list_update)
  have IH: "place_players n (Suc i) ps ?rs' ! r ! t =
     (if Suc i \<le> cell_index n r t \<and> cell_index n r t < Suc i + length ps
      then Some (ps ! (cell_index n r t - Suc i)) else ?rs' ! r ! t)"
    using Cons.IH[of ?rs' "Suc i"] Cons.prems len' by simp
  show ?case
  proof (cases "cell_index n r t = i")
    case True
    then have "r = i div n" "t = teamIndexOf n i"
      using cell_index_div[OF Cons.prems(3), of r] cell_index_team[OF Cons.prems(3), of r] by auto
    then show ?thesis using True step IH rd ti Cons.prems by (simp add: nth_list_update)
  next
    case False
    then have ne: "\<not> (r = i div n \<and> t = teamIndexOf n i)"
      using cell_index_inv[OF Cons.prems(1), of i] by auto
    have "?rs' ! r ! t = rs ! r ! t"
      using ne rd Cons.prems by (auto simp: nth_list_update)
    then show ?thesis using False step IH by (auto simp: Suc_diff_le nth_Cons')
  qed
qed

section \<open>Team labels and the board object\<close>

lemma digits_value_snoc: "digits_value (z @ [c]) = 10 * digits_value z + (c - 48)"
  by (simp add: digits_value_def)

lemma digits_value_digits10: "digits_value (digits10 n) = n"
proof (induction n rule: digits10.induct)
  case (1 n)
  show ?case
  proof (cases "n < 10")
    case True
    then show ?thesis by (simp add: digits10.simps[of n] digits_value_def)
  next
    case False
    then show ?thesis using 1 by (simp add: digits10.simps[of n] digits_value_snoc)
  qed
qed

lemma digits10_inj: "digits10 a = digits10 b \<Longrightarrow> a = b"
  by (metis digits_value_digits10)

lemma teamKey_inj: "teamKey a = teamKey b \<Longrightarrow> a = b"
  using digits10_inj[of "a + 1" "b + 1"] by (simp add: teamKey_def)

lemma obj_set_fresh: "k \<notin> fst ` set kvs \<Longrightarrow> obj_set k v kvs = kvs @ [(k, v)]"
  by (induction kvs) auto

lemma build_board_map:
  "foldl (\<lambda>board t. obj_set (teamKey t) (f t) board) [] [0..<m]
     = map (\<lambda>t. (teamKey t, f t)) [0..<m]"
proof (induction m)
  case 0
  show ?case by simp
next
  case (Suc m)
  have fresh: "teamKey m \<notin> fst ` set (map (\<lambda>t. (teamKey t, f t)) [0..<m])"
    using teamKey_inj by force
  show ?case using Suc obj_set_fresh[OF fresh] by simp
qed

lemma le_ceil_div: "0 < n \<Longrightarrow> a \<le> ceil_div a n * n"
proof -
  assume pos: "0 < n"
  have split: "a div n * n + a mod n = a" by (rule div_mult_mod_eq)
  have small: "a mod n < n" using pos by simp
  show ?thesis
  proof (cases "a mod n = 0")
    case True
    then show ?thesis using split by (simp add: ceil_div_def)
  next
    case False
    then have "ceil_div a n * n = a div n * n + n" by (simp add: ceil_div_def)
    then show ?thesis using split small by linarith
  qed
qed

lemma generateSnakeDraft_eq:
  assumes "roster \<noteq> []" "1 \<le> numTeams"
  shows "generateSnakeDraft roster numTeams =
     map (\<lambda>t. (teamKey t,
                 map (\<lambda>r. snake_cell (nat numTeams) roster r t)
                   [0..<ceil_div (length roster) (nat numTeams)]))
       [0..<nat numTeams]"
proof -
  let ?n = "nat numTeams"
  let ?R = "ceil_div (length roster) ?n"
  let ?rs = "place_players ?n 0 roster (init_rounds ?R ?n)"
  have pos: "0 < ?n" using assms(2) by simp
  have cells: "?rs ! r ! t = snake_cell ?n roster r t" if "r < ?R" "t < ?n" for r t
    using place_players_cell[OF pos, of r "init_rounds ?R ?n" t 0 roster] that
      le_ceil_div[OF pos, of "length roster"]
    by (simp add: init_rounds_def snake_cell_def)
  have "generateSnakeDraft roster numTeams = build_board ?rs ?R ?n"
    using assms by (simp add: generateSnakeDraft_def Let_def)
  also have "\<dots> = map (\<lambda>t. (teamKey t, team_column ?rs ?R t)) [0..<?n]"
    unfolding build_board_def by (rule build_board_map)
  also have "\<dots> = map (\<lambda>t. (teamKey t, map (\<lambda>r. snake_cell ?n roster r t) [0..<?R])) [0..<?n]"
    by (simp add: team_column_def cells)
  finally show ?thesis .
qed

lemma ceil_div_ceiling:
  assumes "0 < n"
  shows "int (ceil_div a n) = \<lceil>real a / real n\<rceil>"
proof -
  have "\<lceil>real a / real n\<rceil> = \<lceil>real_of_int (int a) / real_of_int (int n)\<rceil>" by simp
  also have "\<dots> = - (- int a div int n)" by (rule ceiling_divide_eq_div)
  also have "\<dots> = (if int a mod int n = 0 then int a div int n else int a div int n + 1)"
    using assms by (simp add: zdiv_zminus1_eq_if)
  also have "\<dots> = int (ceil_div a n)"
    by (simp add: ceil_div_def flip: of_nat_mod of_nat_div)
  finally show ?thesis by simp
qed

lemma overallPick_cell_index:
  "t < n \<Longrightarrow> overallPick (int n) r t = int (cell_index n r t) + 1"
  by (auto simp: overallPick_def cell_index_def Let_def of_nat_diff)

lemma count_cells:
  assumes "0 < n" "len \<le> R * n"
  shows "(\<Sum>t<n. card {r. r < R \<and> cell_index n r t < len}) = len"
proof -
  let ?B = "\<lambda>t. {r. r < R \<and> cell_index n r t < len}"
  have "(\<Sum>t<n. card (?B t)) = card (SIGMA t:{..<n}. ?B t)"
    by (subst card_SigmaI) auto
  also have "(SIGMA t:{..<n}. ?B t) = (\<lambda>i. (teamIndexOf n i, i div n)) ` {..<len}"
  proof (intro set_eqI iffI)
    fix x assume "x \<in> (SIGMA t:{..<n}. ?B t)"
    then obtain t r where x: "x = (t, r)" "t < n" "r < R" "cell_index n r t < len" by auto
    have "x = (teamIndexOf n (cell_index n r t), cell_index n r t div n)"
      using x by (simp add: cell_index_div cell_index_team)
    then show "x \<in> (\<lambda>i. (teamIndexOf n i, i div n)) ` {..<len}"
      using x(4) by blast
  next
    fix x assume "x \<in> (\<lambda>i. (teamIndexOf n i, i div n)) ` {..<len}"
    then obtain i where i: "i < len" "x = (teamIndexOf n i, i div n)" by auto
    have "i div n < R" using i(1) assms by (simp add: less_mult_imp_div_less)
    then show "x \<in> (SIGMA t:{..<n}. ?B t)"
      using i assms(1) by (simp add: teamIndexOf_less cell_index_inv)
  qed
  also have "card \<dots> = card {..<len}"
  proof (rule card_image)
    show "inj_on (\<lambda>i. (teamIndexOf n i, i div n)) {..<len}"
      by (rule inj_on_inverseI[where g = "\<lambda>(t, r). cell_index n r t"])
         (simp add: cell_index_inv assms(1))
  qed
  finally show ?thesis by simp
qed

lemma length_filter_concat:
  "length (filter P (concat xss)) = sum_list (map (\<lambda>xs. length (filter P xs)) xss)"
  by (induction xss) auto

lemma count_players:
  assumes "roster \<noteq> []" "1 \<le> numTeams"
  shows "length (filter (\<lambda>c. c \<noteq> None) (board_cells (generateSnakeDraft roster numTeams)))
     = length roster"
proof -
  let ?n = "nat numTeams"
  let ?R = "ceil_div (length roster) ?n"
  have pos: "0 < ?n" using assms(2) by simp
  have col: "length (filter (\<lambda>c. c \<noteq> None) (map (\<lambda>r. snake_cell ?n roster r t) [0..<?R]))
      = card {r. r < ?R \<and> cell_index ?n r t < length roster}" for t
  proof -
    have "length (filter (\<lambda>c. c \<noteq> None) (map (\<lambda>r. snake_cell ?n roster r t) [0..<?R]))
       = length (filter (\<lambda>r. cell_index ?n r t < length roster) [0..<?R])"
      by (simp add: filter_map comp_def snake_cell_def)
    also have "\<dots> = card ({r. cell_index ?n r t < length roster} \<inter> set [0..<?R])"
      by (rule distinct_length_filter) simp
    also have "{r. cell_index ?n r t < length roster} \<inter> set [0..<?R]
       = {r. r < ?R \<and> cell_index ?n r t < length roster}" by auto
    finally show ?thesis .
  qed
  have "board_cells (generateSnakeDraft roster numTeams)
     = concat (map (\<lambda>t. map (\<lambda>r. snake_cell ?n roster r t) [0..<?R]) [0..<?n])"
    by (simp add: generateSnakeDraft_eq[OF assms] board_cells_def comp_def)
  then have "length (filter (\<lambda>c. c \<noteq> None) (board_cells (generateSnakeDraft roster numTeams)))
     = sum_list (map (\<lambda>t. card {r. r < ?R \<and> cell_index ?n r t < length roster}) [0..<?n])"
    by (simp only: length_filter_concat map_map comp_def col)
  also have "\<dots> = (\<Sum>t<?n. card {r. r < ?R \<and> cell_index ?n r t < length roster})"
    by (simp add: interv_sum_list_conv_sum_set_nat atLeast0LessThan)
  also have "\<dots> = length roster"
    by (rule count_cells[OF pos le_ceil_div[OF pos]])
  finally show ?thesis .
qed

lemma obj_get_map:
  assumes "t < n"
  shows "obj_get (map (\<lambda>t. (teamKey t, f t)) [0..<n]) (teamKey t) = Some (f t)"
proof -
  have "map_of (map (\<lambda>t. (teamKey t, f t)) [0..<n]) (teamKey t) = Some (f t)"
  proof (rule map_of_is_SomeI)
    have "inj_on teamKey (set [0..<n])"
      by (rule inj_onI) (rule teamKey_inj)
    then show "distinct (map fst (map (\<lambda>t. (teamKey t, f t)) [0..<n]))"
      by (simp add: comp_def distinct_map)
    show "(teamKey t, f t) \<in> set (map (\<lambda>t. (teamKey t, f t)) [0..<n])"
      using assms by auto
  qed
  then show ?thesis by (simp add: obj_get_def)
qed

lemma board_keys:
  assumes "roster \<noteq> []" "1 \<le> numTeams"
  shows "obj_keys (generateSnakeDraft roster numTeams) = map teamKey [0..<nat numTeams]"
  by (simp add: generateSnakeDraft_eq[OF assms] obj_keys_def comp_def)

lemma board_column:
  assumes "roster \<noteq> []" "1 \<le> numTeams" "t < nat numTeams"
  shows "obj_get (generateSnakeDraft roster numTeams) (teamKey t)
     = Some (map (\<lambda>r. snake_cell (nat numTeams) roster r t)
               [0..<ceil_div (length roster) (nat numTeams)])"
  unfolding generateSnakeDraft_eq[OF assms(1,2)] by (rule obj_get_map[OF assms(3)])

lemma board_player_cell:
  assumes "roster \<noteq> []" "1 \<le> numTeams" "t < nat numTeams"
    "r < ceil_div (length roster) (nat numTeams)"
  shows "board_player (generateSnakeDraft roster numTeams) t r
     = snake_cell (nat numTeams) roster r t"
  using assms
  by (simp add: board_player_def board_keys[OF assms(1,2)] board_column[OF assms(1,2,3)])

lemma board_numRounds:
  assumes "roster \<noteq> []" "1 \<le> numTeams"
  shows "numRounds_of (generateSnakeDraft roster numTeams)
     = ceil_div (length roster) (nat numTeams)"
proof -
  have pos: "0 < nat numTeams" using assms(2) by simp
  then have "[0..<nat numTeams] = 0 # [1..<nat numTeams]" by (simp add: upt_conv_Cons)
  then show ?thesis
    using board_column[OF assms pos]
    by (simp add: numRounds_of_def board_keys[OF assms])
qed

lemma upt_split: "a \<le> b \<Longrightarrow> [0..<b] = [0..<a] @ [a..<b]"
  using upt_add_eq_append[of 0 a "b - a"] by simp

lemma concat_rounds:
  "concat (map (\<lambda>r. concat (map (\<lambda>k. g (r * n + k)) [0..<n])) [0..<R])
     = concat (map g [0..<R * n])"
proof (induction R)
  case 0
  show ?case by simp
next
  case (Suc R)
  have shift: "[R * n..<R * n + n] = map (\<lambda>k. R * n + k) [0..<n]"
    using map_add_upt[of "R * n" n] by (simp add: add.commute)
  have "[0..<Suc R * n] = [0..<R * n] @ [R * n..<R * n + n]"
    using upt_split[of "R * n" "Suc R * n"] by (simp add: add.commute)
  then show ?case using Suc shift by (simp add: comp_def)
qed

lemma concat_singletons: "concat (map (\<lambda>i. [f i]) xs) = map f xs"
  by (induction xs) auto

lemma concat_prefix:
  assumes "len \<le> m"
  shows "concat (map (\<lambda>i. if i < len then [f i] else []) [0..<m]) = map f [0..<len]"
proof -
  have "[0..<m] = [0..<len] @ [len..<m]"
    using assms by (rule upt_split)
  moreover have "concat (map (\<lambda>i. if i < len then [f i] else []) [0..<len]) = map f [0..<len]"
  proof -
    have "map (\<lambda>i. if i < len then [f i] else []) [0..<len] = map (\<lambda>i. [f i]) [0..<len]"
      by (rule map_cong[OF refl]) simp
    then show ?thesis by (simp only: concat_singletons)
  qed
  moreover have "concat (map (\<lambda>i. if i < len then [f i] else []) [len..<m]) = []"
    by auto
  ultimately show ?thesis by simp
qed

lemma rev_upt_map: "rev [0..<n] = map (\<lambda>k. n - 1 - k) [0..<n]"
  by (rule nth_equalityI) (auto simp: rev_nth)

lemma snake_round_cards:
  assumes "roster \<noteq> []" "1 \<le> numTeams" "r < ceil_div (length roster) (nat numTeams)"
  shows "concat (map (card_at (generateSnakeDraft roster numTeams) numTeams r)
            (if even r then [0..<nat numTeams] else rev [0..<nat numTeams]))
     = concat (map (\<lambda>k. if r * nat numTeams + k < length roster
                          then [(roster ! (r * nat numTeams + k), int (r * nat numTeams + k) + 1)]
                          else []) [0..<nat numTeams])"
proof -
  let ?n = "nat numTeams"
  have nn: "int ?n = numTeams" using assms(2) by simp
  have card: "card_at (generateSnakeDraft roster numTeams) numTeams r t
      = (if cell_index ?n r t < length roster
         then [(roster ! cell_index ?n r t, int (cell_index ?n r t) + 1)] else [])"
    if "t < ?n" for t
  proof -
    have "overallPick numTeams r t = int (cell_index ?n r t) + 1"
      using overallPick_cell_index[OF that, of r] by (simp only: nn)
    then show ?thesis
      by (simp add: card_at_def board_player_cell[OF assms(1,2) that assms(3)] snake_cell_def)
  qed
  let ?g = "\<lambda>k. if r * ?n + k < length roster
              then [(roster ! (r * ?n + k), int (r * ?n + k) + 1)] else []"
  show ?thesis
  proof (cases "even r")
    case True
    then have ci: "cell_index ?n r k = r * ?n + k" for k by (simp add: cell_index_def)
    have "map (card_at (generateSnakeDraft roster numTeams) numTeams r) [0..<?n]
        = map ?g [0..<?n]"
      by (rule map_cong[OF refl]) (simp add: card ci)
    then show ?thesis by (simp only: True if_True)
  next
    case False
    then have ci: "cell_index ?n r (?n - 1 - k) = r * ?n + k" if "k < ?n" for k
      using that by (auto simp: cell_index_def)
    have "map (card_at (generateSnakeDraft roster numTeams) numTeams r) (rev [0..<?n])
        = map (\<lambda>k. card_at (generateSnakeDraft roster numTeams) numTeams r (?n - 1 - k)) [0..<?n]"
      by (simp only: rev_upt_map map_map comp_def)
    also have "\<dots> = map ?g [0..<?n]"
    proof (rule map_cong[OF refl])
      fix k assume "k \<in> set [0..<?n]"
      then have k: "k < ?n" by simp
      then have "?n - 1 - k < ?n" by arith
      from card[OF this] show "card_at (generateSnakeDraft roster numTeams) numTeams r (?n - 1 - k) = ?g k"
        by (simp only: ci[OF k])
    qed
    finally show ?thesis by (simp only: False if_False)
  qed
qed

lemma snake_traversal:
  assumes "roster \<noteq> []" "1 \<le> numTeams"
  shows "concat (map (\<lambda>r. concat (map (card_at (generateSnakeDraft roster numTeams) numTeams r)
                       (if even r then [0..<nat numTeams] else rev [0..<nat numTeams])))
            [0..<ceil_div (length roster) (nat numTeams)])
     = map (\<lambda>i. (roster ! i, int i + 1)) [0..<length roster]"
proof -
  let ?n = "nat numTeams"
  let ?R = "ceil_div (length roster) ?n"
  let ?g = "\<lambda>i. if i < length roster then [(roster ! i, int i + 1)] else []"
  have pos: "0 < ?n" using assms(2) by simp
  have "concat (map (\<lambda>r. concat (map (card_at (generateSnakeDraft roster numTeams) numTeams r)
                       (if even r then [0..<?n] else rev [0..<?n]))) [0..<?R])
     = concat (map (\<lambda>r. concat (map (\<lambda>k. ?g (r * ?n + k)) [0..<?n])) [0..<?R])"
    by (rule arg_cong[where f = concat], rule map_cong[OF refl])
       (simp only: snake_round_cards[OF assms] set_upt atLeastLessThan_iff)
  also have "\<dots> = concat (map ?g [0..<?R * ?n])" by (rule concat_rounds)
  also have "\<dots> = map (\<lambda>i. (roster ! i, int i + 1)) [0..<length roster]"
    by (rule concat_prefix[OF le_ceil_div[OF pos]])
  finally show ?thesis .
qed

lemma teamKey_simps:
  "teamKey 0 = u16 ''Team 1''" "teamKey 1 = u16 ''Team 2''" "teamKey 2 = u16 ''Team 3''"
  by (simp_all add: teamKey_def digits10.simps u16_def)

lemma seven_players_three_teams:
  "generateSnakeDraft [p1, p2, p3, p4, p5, p6, p7] 3 =
     [(u16 ''Team 1'', [Some p1, Some p6, Some p7]),
      (u16 ''Team 2'', [Some p2, Some p5, None]),
      (u16 ''Team 3'', [Some p3, Some p4, None])]"
  by code_simp

lemma mset_concat_rev:
  "mset (concat (map f (rev xs))) = mset (concat (map f xs))"
  by (simp add: mset_concat rev_map[symmetric] sum_list_rev del: rev_map)

lemma DraftBoard_cards_mset:
  assumes "roster \<noteq> []" "1 \<le> numTeams"
  shows "mset (DraftBoard_cards (generateSnakeDraft roster numTeams) numTeams)
     = mset (map (\<lambda>i. (roster ! i, int i + 1)) [0..<length roster])"
proof -
  let ?B = "generateSnakeDraft roster numTeams"
  let ?n = "nat numTeams"
  let ?R = "ceil_div (length roster) ?n"
  have row: "mset (concat (map (card_at ?B numTeams r) [0..<?n]))
      = mset (concat (map (card_at ?B numTeams r) (if even r then [0..<?n] else rev [0..<?n])))"
    for r by (simp add: mset_concat_rev del: rev_map)
  have "mset (DraftBoard_cards ?B numTeams)
      = (\<Sum>r\<leftarrow>[0..<?R]. mset (concat (map (card_at ?B numTeams r) [0..<?n])))"
    by (simp add: DraftBoard_cards_def board_keys[OF assms] board_numRounds[OF assms]
        mset_concat comp_def)
  also have "\<dots> = (\<Sum>r\<leftarrow>[0..<?R]. mset (concat (map (card_at ?B numTeams r)
                       (if even r then [0..<?n] else rev [0..<?n]))))"
    by (rule arg_cong[where f = sum_list], rule map_cong[OF refl], rule row)
  also have "\<dots> = mset (concat (map (\<lambda>r. concat (map (card_at ?B numTeams r)
                       (if even r then [0..<?n] else rev [0..<?n]))) [0..<?R]))"
    by (simp only: mset_concat[of "map _ _"] map_map comp_def)
  also have "\<dots> = mset (map (\<lambda>i. (roster ! i, int i + 1)) [0..<length roster])"
    by (simp only: snake_traversal[OF assms])
  finally show ?thesis .
qed

section \<open>Doubles and their decimal form\<close>

lemma bit_length_less: "n < 2 ^ bit_length n"
proof (induction n rule: bit_length.induct)
  case (1 n)
  show ?case
  proof (cases "n = 0")
    case True
    then show ?thesis by (simp add: bit_length.simps)
  next
    case False
    have "n div 2 < 2 ^ bit_length (n div 2)" using 1 False by simp
    then have "n < 2 * 2 ^ bit_length (n div 2)" by linarith
    then show ?thesis using False by (simp add: bit_length.simps[of n])
  qed
qed

lemma bit_length_ge: "0 < n \<Longrightarrow> 2 ^ (bit_length n - 1) \<le> n"
proof (induction n rule: bit_length.induct)
  case (1 n)
  show ?case
  proof (cases "n div 2 = 0")
    case True
    then have "n = 1" using 1(2) by linarith
    then show ?thesis by (simp add: bit_length.simps)
  next
    case False
    then have pos: "0 < n div 2" by simp
    have ih: "2 ^ (bit_length (n div 2) - 1) \<le> n div 2" using 1(1) 1(2) pos by simp
    have "0 < bit_length (n div 2)" using pos by (simp add: bit_length.simps[of "n div 2"])
    then have "2 ^ bit_length (n div 2) = 2 * (2::nat) ^ (bit_length (n div 2) - 1)"
      by (cases "bit_length (n div 2)") simp_all
    then have "2 ^ bit_length (n div 2) \<le> n" using ih by linarith
    then show ?thesis using 1(2) by (simp add: bit_length.simps[of n])
  qed
qed

lemma bit_length_unique:
  assumes "2 ^ b \<le> n" and "n < 2 ^ Suc b"
  shows "bit_length n = Suc b"
proof -
  have pos: "0 < n" using assms(1) by (metis less_le_trans zero_less_numeral zero_less_power)
  have up: "n < 2 ^ bit_length n" by (rule bit_length_less)
  have low: "2 ^ (bit_length n - 1) \<le> n" by (rule bit_length_ge[OF pos])
  have "(2::nat) ^ b < 2 ^ bit_length n" using assms(1) up by linarith
  then have 1: "b < bit_length n"
    by (rule power_less_imp_less_exp[rotated]) simp
  have "(2::nat) ^ (bit_length n - 1) < 2 ^ Suc b" using low assms(2) by linarith
  then have 2: "bit_length n - 1 < Suc b"
    by (rule power_less_imp_less_exp[rotated]) simp
  show ?thesis using 1 2 by linarith
qed

lemma round_magnitude_small: "a < 2 ^ 53 \<Longrightarrow> round_magnitude a = a"
proof -
  assume small: "a < 2 ^ 53"
  have "bit_length a \<le> 53"
  proof (rule ccontr)
    assume "\<not> bit_length a \<le> 53"
    then have big: "54 \<le> bit_length a" by simp
    then have "0 < a" by (cases "a = 0") (simp_all add: bit_length.simps)
    then have "2 ^ (bit_length a - 1) \<le> a" by (rule bit_length_ge)
    moreover have "(2::nat) ^ 53 \<le> 2 ^ (bit_length a - 1)"
      using big by (intro power_increasing) simp_all
    ultimately show False using small by linarith
  qed
  then show ?thesis by (simp add: round_magnitude_def)
qed

lemma round_exact_below:
  assumes "2 ^ 52 \<le> q" and "q < 2 ^ 53"
  shows "round_magnitude (q * 2 ^ e) = q * 2 ^ e"
proof -
  let ?v = "q * 2 ^ e"
  have low: "2 ^ (52 + e) \<le> ?v" using assms(1) by (simp add: power_add)
  have up: "?v < 2 ^ Suc (52 + e)"
  proof -
    have "q * 2 ^ e < 2 ^ 53 * 2 ^ e" using assms(2) by simp
    then show ?thesis by (simp add: power_add)
  qed
  have bl: "bit_length ?v = 53 + e" using bit_length_unique[OF low up] by simp
  show ?thesis
  proof (cases "e = 0")
    case True
    then show ?thesis using bl by (simp add: round_magnitude_def)
  next
    case False
    then have half: "(0::nat) < 2 ^ (e - 1)" by simp
    show ?thesis
      using bl False half by (simp add: round_magnitude_def Let_def)
  qed
qed

lemma round_exact_top: "round_magnitude (2 ^ 53 * 2 ^ e) = 2 ^ 53 * 2 ^ e"
proof -
  let ?v = "(2::nat) ^ 53 * 2 ^ e"
  have v: "?v = 2 ^ (53 + e)" by (simp add: power_add)
  have bl: "bit_length ?v = 54 + e"
    using bit_length_unique[of "53 + e" ?v] by (simp add: power_add)
  have d: "?v div 2 ^ Suc e = 2 ^ 52"
  proof -
    have "?v = 2 ^ 52 * 2 ^ Suc e" by simp
    then show ?thesis by (metis nonzero_mult_div_cancel_right power_not_zero zero_neq_numeral)
  qed
  have m: "?v mod 2 ^ Suc e = 0"
  proof -
    have "?v = 2 ^ 52 * 2 ^ Suc e" by simp
    then show ?thesis by (metis mod_mult_self2_is_0)
  qed
  have ee: "54 + e - 53 = Suc e" by simp
  have "round_magnitude ?v = 2 ^ 52 * 2 ^ Suc e"
    unfolding round_magnitude_def Let_def bl ee
    by (simp only: d m) simp
  then show ?thesis by simp
qed

lemma round_magnitude_shape:
  assumes "53 < bit_length a"
  shows "\<exists>q. 2 ^ 52 \<le> q \<and> q \<le> 2 ^ 53
           \<and> round_magnitude a = q * 2 ^ (bit_length a - 53)"
proof -
  let ?b = "bit_length a"
  let ?e = "?b - 53"
  let ?q = "a div 2 ^ ?e"
  have pos: "0 < a" using assms by (cases "a = 0") (simp_all add: bit_length.simps)
  have low: "2 ^ (?b - 1) \<le> a" by (rule bit_length_ge[OF pos])
  have up: "a < 2 ^ ?b" by (rule bit_length_less)
  have b1: "?b - 1 = 52 + ?e" using assms by simp
  have b2: "?b = 53 + ?e" using assms by simp
  have "2 ^ 52 * 2 ^ ?e \<le> a" using low unfolding b1 by (simp add: power_add)
  then have qlow: "2 ^ 52 \<le> ?q"
    by (metis div_le_mono nonzero_mult_div_cancel_right power_not_zero zero_neq_numeral)
  have "a < 2 ^ 53 * 2 ^ ?e" using up b2 by (metis power_add)
  then have qup: "?q < 2 ^ 53" by (simp add: less_mult_imp_div_less)
  let ?q' = "if 2 ^ (?e - 1) < a mod 2 ^ ?e \<or> (a mod 2 ^ ?e = 2 ^ (?e - 1) \<and> odd ?q)
             then ?q + 1 else ?q"
  have r: "round_magnitude a = ?q' * 2 ^ ?e"
    using assms by (simp add: round_magnitude_def Let_def)
  have "2 ^ 52 \<le> ?q' \<and> ?q' \<le> 2 ^ 53" using qlow qup by auto
  then show ?thesis using r by blast
qed

lemma round_magnitude_idem: "round_magnitude (round_magnitude a) = round_magnitude a"
proof (cases "bit_length a \<le> 53")
  case True
  then show ?thesis by (simp add: round_magnitude_def)
next
  case False
  then obtain q where q: "2 ^ 52 \<le> q" "q \<le> 2 ^ 53"
    and r: "round_magnitude a = q * 2 ^ (bit_length a - 53)"
    using round_magnitude_shape[of a] by auto
  show ?thesis
  proof (cases "q = 2 ^ 53")
    case True
    then show ?thesis using r round_exact_top[of "bit_length a - 53"] by simp
  next
    case False
    then have "q < 2 ^ 53" using q(2) by simp
    then show ?thesis using r round_exact_below[OF q(1), of "bit_length a - 53"] by simp
  qed
qed

lemma round_magnitude_overflow:
  assumes "2 ^ 1024 \<le> a"
  shows "2 ^ 1024 \<le> round_magnitude a"
proof -
  have "(2::nat) ^ 1024 < 2 ^ bit_length a"
    using assms bit_length_less[of a] by linarith
  then have big: "1024 < bit_length a"
    by (rule power_less_imp_less_exp[rotated]) simp
  then obtain q where q: "2 ^ 52 \<le> q"
    and r: "round_magnitude a = q * 2 ^ (bit_length a - 53)"
    using round_magnitude_shape[of a] by auto
  have "(2::nat) ^ 1024 \<le> 2 ^ (52 + (bit_length a - 53))"
    using big by (intro power_increasing) simp_all
  also have "\<dots> = 2 ^ 52 * 2 ^ (bit_length a - 53)" by (simp add: power_add)
  also have "\<dots> \<le> q * 2 ^ (bit_length a - 53)" using q by (rule mult_le_mono1)
  finally show ?thesis using r by simp
qed

lemma to_double_overflow: "2 ^ 1024 \<le> a \<Longrightarrow> to_double (int a) = PosInf"
  using round_magnitude_overflow[of a] by (simp add: to_double_def Let_def)

lemma to_double_neg: "to_double (- m) = negate (to_double m)"
  by (cases "m = 0") (auto simp: to_double_def negate_def Let_def round_magnitude_small)

lemma to_double_nat_idem:
  assumes "to_double (int a) = Num n"
  shows "n = int (round_magnitude a)" and "to_double n = Num n"
proof -
  show n: "n = int (round_magnitude a)"
    using assms by (simp add: to_double_def Let_def split: if_splits)
  have "\<not> 2 ^ 1024 \<le> round_magnitude a"
    using assms by (simp add: to_double_def Let_def split: if_splits)
  then show "to_double n = Num n"
    unfolding n by (simp add: to_double_def Let_def round_magnitude_idem)
qed

lemma to_double_idem:
  assumes "to_double m = Num n"
  shows "to_double n = Num n"
proof (cases "m < 0")
  case False
  then have "m = int (nat m)" by simp
  then show ?thesis using assms to_double_nat_idem(2)[of "nat m" n] by simp
next
  case True
  define k where "k = nat (- m)"
  have m: "m = - int k" using True by (simp add: k_def)
  have "negate (to_double (int k)) = Num n"
    using assms unfolding m to_double_neg .
  then have pos: "to_double (int k) = Num (- n)"
    by (cases "to_double (int k)") (simp_all add: negate_def)
  have "to_double (- n) = Num (- n)" by (rule to_double_nat_idem(2)[OF pos])
  then have "negate (to_double n) = Num (- n)" unfolding to_double_neg .
  then show ?thesis by (cases "to_double n") (simp_all add: negate_def)
qed

lemma to_double_bound: "to_double m = Num n \<Longrightarrow> \<bar>n\<bar> < 2 ^ 1024"
  by (auto simp: to_double_def Let_def split: if_splits)

lemma to_double_small: "\<bar>m\<bar> < 2 ^ 53 \<Longrightarrow> to_double m = Num m"
proof -
  assume small: "\<bar>m\<bar> < 2 ^ 53"
  then have "nat \<bar>m\<bar> < 2 ^ 53" by simp
  then have r: "round_magnitude (nat \<bar>m\<bar>) = nat \<bar>m\<bar>" by (rule round_magnitude_small)
  have "nat \<bar>m\<bar> < 2 ^ 1024"
    using \<open>nat \<bar>m\<bar> < 2 ^ 53\<close> by (rule less_le_trans) simp
  then show ?thesis by (auto simp: to_double_def Let_def r)
qed

lemma decimal_candidate_valid:
  "decimal_candidate x j = Some v \<Longrightarrow> to_double (int v) = Num (int x)"
  by (auto simp: decimal_candidate_def Let_def split: if_splits)

lemma decimal_candidate_le:
  "decimal_candidate x j = Some v \<Longrightarrow> v \<le> (x div 10 ^ j + 1) * 10 ^ j"
  by (auto simp: decimal_candidate_def Let_def split: if_splits)

lemma first_candidate_cases:
  "first_candidate x js = x \<or> (\<exists>j \<in> set js. decimal_candidate x j = Some (first_candidate x js))"
  by (induction js) (auto split: option.splits)

lemma shortest_decimal_valid:
  assumes "to_double (int x) = Num (int x)"
  shows "to_double (int (shortest_decimal x)) = Num (int x)"
  using first_candidate_cases[of x "rev [0..<length (digits10 x)]"] assms
    decimal_candidate_valid
  unfolding shortest_decimal_def by metis

lemma digits10_length: "0 < m \<Longrightarrow> x < 10 ^ m \<Longrightarrow> length (digits10 x) \<le> m"
proof (induction x arbitrary: m rule: digits10.induct)
  case (1 n)
  show ?case
  proof (cases "n < 10")
    case True
    then show ?thesis using 1(2) by (simp add: digits10.simps[of n])
  next
    case False
    obtain k where m: "m = Suc k" using 1(2) by (cases m) auto
    have k: "0 < k"
    proof (rule ccontr)
      assume "\<not> 0 < k"
      then show False using False 1(3) m by simp
    qed
    have "n div 10 < 10 ^ k" using 1(3) m by (simp add: less_mult_imp_div_less)
    then have "length (digits10 (n div 10)) \<le> k" using 1(1)[OF False k] by simp
    then show ?thesis using False m by (simp add: digits10.simps[of n])
  qed
qed

lemma ten21_exact: "to_double (10 ^ 21) = Num (10 ^ 21)"
proof -
  have "round_magnitude (7629394531250000 * 2 ^ 17) = 7629394531250000 * 2 ^ 17"
    by (rule round_exact_below) simp_all
  then have "round_magnitude (10 ^ 21) = 10 ^ 21" by simp
  then show ?thesis by (simp add: to_double_def Let_def)
qed

lemma two_ten21_exact: "to_double (2 * 10 ^ 21) = Num (2 * 10 ^ 21)"
proof -
  have "round_magnitude (7629394531250000 * 2 ^ 18) = 7629394531250000 * 2 ^ 18"
    by (rule round_exact_below) simp_all
  then have "round_magnitude (2 * 10 ^ 21) = 2 * 10 ^ 21" by simp
  then show ?thesis by (simp add: to_double_def Let_def)
qed

lemma shortest_decimal_ten21:
  "shortest_decimal 1000000000000000000000 = 1000000000000000000000"
proof -
  have len: "length (digits10 1000000000000000000000) = 22" by (simp add: digits10.simps)
  have order: "rev [0..<22] = 21 # rev [0..<21]"
    using upt_Suc_append[of 0 21] by simp
  have lo: "to_double 1000000000000000000000 = Num 1000000000000000000000"
    using ten21_exact by simp
  have hi: "to_double 2000000000000000000000 = Num 2000000000000000000000"
    using two_ten21_exact by simp
  have "decimal_candidate 1000000000000000000000 21 = Some 1000000000000000000000"
    by (simp add: decimal_candidate_def Let_def lo hi)
  then show ?thesis by (simp add: shortest_decimal_def len order)
qed

lemma number_to_string_ten21:
  "number_to_string (Num 1000000000000000000000) = u16 ''1e+21''"
proof -
  have "positive_to_string 1000000000000000000000 = u16 ''1e+21''"
    by (simp add: positive_to_string_def shortest_decimal_ten21 Let_def
        strip_trailing_zeros_def digits10.simps u16_def)
  then show ?thesis by (simp add: number_to_string_def)
qed

lemma positive_to_string_digit:
  assumes "x < 10"
  shows "positive_to_string x = [48 + x]"
proof -
  have ds: "digits10 x = [48 + x]" using assms by (simp add: digits10.simps)
  have lo: "to_double (int x) = Num (int x)" using assms by (intro to_double_small) simp
  have hi: "to_double (int (x + 1)) = Num (int (x + 1))"
    using assms by (intro to_double_small) simp
  have "decimal_candidate x 0 = Some x"
    using lo hi by (simp add: decimal_candidate_def Let_def)
  then have "shortest_decimal x = x" by (simp add: shortest_decimal_def ds)
  then show ?thesis by (simp add: positive_to_string_def ds)
qed

lemma shortest_decimal_below:
  assumes "x < 10 ^ 21" and "to_double (int x) = Num (int x)"
  shows "shortest_decimal x < 10 ^ 21"
proof -
  let ?js = "rev [0..<length (digits10 x)]"
  let ?v = "first_candidate x ?js"
  have len: "length (digits10 x) \<le> 21" using assms(1) by (intro digits10_length) simp_all
  have "?v < 10 ^ 21"
  proof -
    consider "?v = x" | j where "j \<in> set ?js" "decimal_candidate x j = Some ?v"
      using first_candidate_cases[of x ?js] by blast
    then show ?thesis
    proof cases
      case 1
      then show ?thesis using assms(1) by simp
    next
      case 2
      have j: "j \<le> 20" using 2(1) len by auto
      have split: "(10::nat) ^ 21 = 10 ^ (21 - j) * 10 ^ j"
        using j by (simp flip: power_add)
      then have "x div 10 ^ j < 10 ^ (21 - j)"
        using assms(1) by (simp add: less_mult_imp_div_less)
      then have "x div 10 ^ j + 1 \<le> 10 ^ (21 - j)" by simp
      then have "(x div 10 ^ j + 1) * 10 ^ j \<le> 10 ^ (21 - j) * 10 ^ j"
        by (rule mult_le_mono1)
      then have le: "?v \<le> 10 ^ 21"
        using decimal_candidate_le[OF 2(2)] split by linarith
      have "?v \<noteq> 10 ^ 21"
      proof
        assume eq: "?v = 10 ^ 21"
        have "to_double (int ?v) = Num (int x)" by (rule decimal_candidate_valid[OF 2(2)])
        then have "to_double (10 ^ 21) = Num (int x)" unfolding eq by simp
        then have "int x = int (10 ^ 21)" using ten21_exact by simp
        then have "x = 10 ^ 21" by (simp only: of_nat_eq_iff)
        then show False using assms(1) by simp
      qed
      then show ?thesis using le by linarith
    qed
  qed
  then show ?thesis by (simp add: shortest_decimal_def)
qed

lemma positive_to_string_plain:
  assumes "x < 10 ^ 21" and "to_double (int x) = Num (int x)"
  shows "positive_to_string x = digits10 (shortest_decimal x)"
proof -
  have "length (digits10 (shortest_decimal x)) \<le> 21"
    using shortest_decimal_below[OF assms] by (intro digits10_length) simp_all
  then show ?thesis by (simp add: positive_to_string_def Let_def)
qed

section \<open>Tokens of a line\<close>

lemma split_ws_nonempty: "split_ws s \<noteq> []"
  by (induction s rule: split_ws.induct) (auto split: list.splits)

lemma split_ws_ws_free: "t \<in> set (split_ws s) \<Longrightarrow> ws_free t"
proof (induction s arbitrary: t rule: split_ws.induct)
  case 1
  then show ?case by (simp add: ws_free_def)
next
  case (2 c cs)
  show ?case
  proof (cases "is_ws c")
    case True
    then show ?thesis using 2 by (auto simp: ws_free_def)
  next
    case False
    obtain piece pieces where r: "split_ws cs = piece # pieces"
      using split_ws_nonempty[of cs] by (cases "split_ws cs") auto
    have "t = c # piece \<or> t \<in> set pieces" using 2(3) False r by simp
    then show ?thesis
    proof
      assume "t = c # piece"
      moreover have "ws_free piece" using 2(2)[OF False, of piece] r by simp
      ultimately show ?thesis using False by (simp add: ws_free_def)
    next
      assume "t \<in> set pieces"
      then show ?thesis using 2(2)[OF False, of t] r by simp
    qed
  qed
qed

lemma split_ws_hd: "s \<noteq> [] \<Longrightarrow> \<not> is_ws (hd s) \<Longrightarrow> hd (split_ws s) \<noteq> []"
  by (cases s) (auto split: list.splits)

lemma dropWhile_last: "xs \<noteq> [] \<Longrightarrow> \<not> P (last xs) \<Longrightarrow>
    dropWhile P xs \<noteq> [] \<and> last (dropWhile P xs) = last xs"
  by (induction xs) (auto split: if_splits)

lemma split_ws_tl:
  "s \<noteq> [] \<Longrightarrow> \<not> is_ws (last s) \<Longrightarrow> t \<in> set (tl (split_ws s)) \<Longrightarrow> t \<noteq> []"
proof (induction s arbitrary: t rule: split_ws.induct)
  case 1
  then show ?case by simp
next
  case (2 c cs)
  show ?case
  proof (cases "is_ws c")
    case True
    let ?d = "dropWhile is_ws cs"
    have cs: "cs \<noteq> []" using 2(4) True by (cases cs) auto
    then have lastcs: "\<not> is_ws (last cs)" using 2(4) by simp
    have d: "?d \<noteq> []" "last ?d = last cs"
      using dropWhile_last[of cs is_ws] cs lastcs by auto
    have hdd: "\<not> is_ws (hd ?d)" using d(1) by (rule hd_dropWhile)
    have t: "t \<in> set (split_ws ?d)" using 2(5) True by simp
    obtain piece pieces where r: "split_ws ?d = piece # pieces"
      using split_ws_nonempty[of ?d] by (cases "split_ws ?d") auto
    have "piece \<noteq> []" using split_ws_hd[OF d(1) hdd] r by simp
    moreover have "t \<in> set pieces \<Longrightarrow> t \<noteq> []"
      using 2(1)[OF True d(1), of t] d(2) lastcs r by simp
    ultimately show ?thesis using t r by auto
  next
    case False
    show ?thesis
    proof (cases "cs = []")
      case True
      then show ?thesis using 2(5) False by simp
    next
      case nonempty: False
      obtain piece pieces where r: "split_ws cs = piece # pieces"
        using split_ws_nonempty[of cs] by (cases "split_ws cs") auto
      have "t \<in> set (tl (split_ws cs))" using 2(5) False r by simp
      then show ?thesis using 2(2)[OF False nonempty, of t] 2(4) nonempty by simp
    qed
  qed
qed

lemma trim_ends:
  assumes "trim s \<noteq> []"
  shows "\<not> is_ws (hd (trim s))" and "\<not> is_ws (last (trim s))"
proof -
  let ?d = "dropWhile is_ws s"
  let ?e = "dropWhile is_ws (rev ?d)"
  have e: "?e \<noteq> []" using assms by (simp add: trim_def)
  then have "\<not> is_ws (hd ?e)" by (rule hd_dropWhile)
  then show "\<not> is_ws (last (trim s))" using e by (simp add: trim_def last_rev)
  have d: "?d \<noteq> []"
  proof
    assume a: "?d = []"
    have "?e = []" unfolding a by simp
    with e show False by blast
  qed
  have "rev ?d = takeWhile is_ws (rev ?d) @ ?e" by simp
  then have "?d = rev ?e @ rev (takeWhile is_ws (rev ?d))"
    by (metis rev_append rev_rev_ident)
  then have "hd ?d = hd (rev ?e)" using e by (metis hd_append2 rev_is_Nil_conv)
  moreover have "\<not> is_ws (hd ?d)" using d by (rule hd_dropWhile)
  ultimately show "\<not> is_ws (hd (trim s))" by (simp add: trim_def)
qed

lemma tokens_nonempty:
  assumes "trim line \<noteq> []" "t \<in> set (split_ws (trim line))"
  shows "t \<noteq> []"
proof -
  obtain piece pieces where r: "split_ws (trim line) = piece # pieces"
    using split_ws_nonempty[of "trim line"] by (cases "split_ws (trim line)") auto
  have "piece \<noteq> []" using split_ws_hd[OF assms(1) trim_ends(1)[OF assms(1)]] r by simp
  moreover have "t \<in> set pieces \<Longrightarrow> t \<noteq> []"
    using split_ws_tl[OF assms(1) trim_ends(2)[OF assms(1)], of t] r by simp
  ultimately show ?thesis using assms(2) r by auto
qed

lemma slice_middle_eq: "slice_middle parts = butlast (tl parts)"
  by (simp add: slice_middle_def butlast_conv_take drop_Suc)

lemma parts_shape:
  assumes "3 \<le> length parts"
  shows "parts = (parts ! 0) # slice_middle parts @ [parts ! (length parts - 1)]"
    and "slice_middle parts \<noteq> []"
proof -
  obtain a rest where p: "parts = a # rest" using assms by (cases parts) auto
  then have rest: "2 \<le> length rest" using assms by simp
  then have "rest \<noteq> []" by auto
  then have "rest = butlast rest @ [last rest]" by simp
  moreover have "last rest = parts ! (length parts - 1)"
    using p \<open>rest \<noteq> []\<close> by (simp add: last_conv_nth)
  ultimately show "parts = (parts ! 0) # slice_middle parts @ [parts ! (length parts - 1)]"
    using p by (simp add: slice_middle_eq)
  show "slice_middle parts \<noteq> []"
    using p rest by (cases rest rule: rev_cases) (auto simp: slice_middle_eq)
qed

lemma join_sp_nonempty:
  "ts \<noteq> [] \<Longrightarrow> \<forall>t \<in> set ts. t \<noteq> [] \<Longrightarrow> join_sp ts \<noteq> []"
  by (induction ts rule: join_sp.induct) auto

section \<open>One line and the loop over the lines\<close>

lemma parse_line_Parsed:
  assumes "parse_line line = Parsed p"
  shows "trim line \<noteq> []" and "3 \<le> length (split_ws (trim line))"
    and "rank p = parseInt (split_ws (trim line) ! 0)" and "rank p \<noteq> NaN"
    and "name p = join_sp (slice_middle (split_ws (trim line)))"
    and "position p = split_ws (trim line) ! (length (split_ws (trim line)) - 1)"
  using assms
  by (auto simp: parse_line_def check_fields_def isNaN_def Let_def split: if_splits)

lemma parse_line_Failed:
  "parse_line line = Failed m \<Longrightarrow> m = malformed_msg line \<or> m = unparsed_msg line"
  by (auto simp: parse_line_def check_fields_def Let_def split: if_splits)

lemma parse_line_malformed:
  "trim line \<noteq> [] \<Longrightarrow> length (split_ws (trim line)) < 3 \<Longrightarrow>
     parse_line line = Failed (malformed_msg line)"
  by (simp add: parse_line_def)

lemma slice_middle_subset: "set (slice_middle parts) \<subseteq> set parts"
proof
  fix t assume "t \<in> set (slice_middle parts)"
  then have "t \<in> set (drop 1 parts)" unfolding slice_middle_def by (rule in_set_takeD)
  then show "t \<in> set parts" by (rule in_set_dropD)
qed

lemma fields_nonempty:
  assumes "trim line \<noteq> []" and "3 \<le> length (split_ws (trim line))"
  shows "join_sp (slice_middle (split_ws (trim line))) \<noteq> []"
    and "split_ws (trim line) ! (length (split_ws (trim line)) - 1) \<noteq> []"
proof -
  let ?parts = "split_ws (trim line)"
  have tokens: "\<forall>t \<in> set ?parts. t \<noteq> []" using tokens_nonempty[OF assms(1)] by blast
  have mid: "slice_middle ?parts \<noteq> []" by (rule parts_shape(2)[OF assms(2)])
  have "\<forall>t \<in> set (slice_middle ?parts). t \<noteq> []"
    using tokens slice_middle_subset[of ?parts] by blast
  then show "join_sp (slice_middle ?parts) \<noteq> []" by (rule join_sp_nonempty[OF mid])
  have "?parts ! (length ?parts - 1) \<in> set ?parts" using assms(2) by simp
  then show "?parts ! (length ?parts - 1) \<noteq> []" using tokens by blast
qed

lemma parse_line_unparsed:
  assumes "trim line \<noteq> []" and "3 \<le> length (split_ws (trim line))"
  shows "(parse_line line = Failed (unparsed_msg line))
     = isNaN (parseInt (split_ws (trim line) ! 0))"
  using assms fields_nonempty[OF assms]
  by (simp add: parse_line_def check_fields_def Let_def)

lemma parse_lines_first_failure:
  "i < length ls \<Longrightarrow> parse_line (ls ! i) = Failed m \<Longrightarrow>
   (\<forall>j<i. \<forall>m'. parse_line (ls ! j) \<noteq> Failed m') \<Longrightarrow>
   parse_lines ls acc = \<lparr>players = [], error = Some m\<rparr>"
proof (induction ls arbitrary: i acc)
  case Nil
  then show ?case by simp
next
  case (Cons l ls)
  show ?case
  proof (cases i)
    case 0
    then show ?thesis using Cons.prems by simp
  next
    case (Suc k)
    have head: "\<forall>m'. parse_line l \<noteq> Failed m'" using Cons.prems(3) Suc by auto
    have earlier: "\<forall>j<k. \<forall>m'. parse_line (ls ! j) \<noteq> Failed m'"
    proof (intro allI impI)
      fix j m' assume "j < k"
      then have "Suc j < i" using Suc by simp
      then show "parse_line (ls ! j) \<noteq> Failed m'" using Cons.prems(3) by fastforce
    qed
    have k: "k < length ls" "parse_line (ls ! k) = Failed m"
      using Cons.prems(1,2) Suc by simp_all
    have "parse_lines ls acc' = \<lparr>players = [], error = Some m\<rparr>" for acc'
      by (rule Cons.IH[OF k earlier])
    then show ?thesis using head by (cases "parse_line l") auto
  qed
qed

lemma parse_lines_some_failure:
  "l \<in> set ls \<Longrightarrow> parse_line l = Failed m \<Longrightarrow>
   \<exists>m'. parse_lines ls acc = \<lparr>players = [], error = Some m'\<rparr>"
proof (induction ls arbitrary: acc)
  case Nil
  then show ?case by simp
next
  case (Cons a ls)
  then show ?case by (cases "parse_line a") auto
qed

lemma parse_lines_players:
  "p \<in> set (players (parse_lines ls acc)) \<Longrightarrow>
   p \<in> set acc \<or> (\<exists>l \<in> set ls. parse_line l = Parsed p)"
proof (induction ls arbitrary: acc)
  case Nil
  then show ?case by simp
next
  case (Cons a ls)
  show ?case
  proof (cases "parse_line a")
    case Skipped
    then show ?thesis using Cons by auto
  next
    case (Failed m)
    then show ?thesis using Cons.prems by simp
  next
    case (Parsed q)
    then have "p \<in> set (players (parse_lines ls (acc @ [q])))"
      using Cons.prems by simp
    then have "p \<in> set (acc @ [q]) \<or> (\<exists>l \<in> set ls. parse_line l = Parsed p)"
      by (rule Cons.IH)
    then show ?thesis using Parsed by auto
  qed
qed

lemma messages_differ: "unparsed_msg l \<noteq> malformed_msg l'"
  by (simp add: unparsed_msg_def malformed_msg_def u16_def)

lemmas eval_simps = u16_def is_ws_def trim_def parsePlayerText_def parse_line_def check_fields_def
  parseInt_def is_digit_def digits_value_def slice_middle_def isNaN_def Let_def to_double_small

section \<open>Parsing a re-serialised list\<close>

lemma digits10_digits: "c \<in> set (digits10 n) \<Longrightarrow> is_digit c"
proof (induction n arbitrary: c rule: digits10.induct)
  case (1 n)
  show ?case
  proof (cases "n < 10")
    case True
    then show ?thesis using 1(2) by (simp add: digits10.simps[of n] is_digit_def)
  next
    case False
    have "n mod 10 < 10" by simp
    then have "is_digit (48 + n mod 10)" by (simp add: is_digit_def)
    then show ?thesis using 1 False by (auto simp: digits10.simps[of n])
  qed
qed

lemma digits10_nonempty: "digits10 n \<noteq> []"
  by (subst digits10.simps) simp

lemma digit_not_ws: "is_digit c \<Longrightarrow> \<not> is_ws c"
  by (auto simp: is_digit_def is_ws_def)

lemma digit_not_sign: "is_digit c \<Longrightarrow> c \<noteq> 43 \<and> c \<noteq> 45"
  by (auto simp: is_digit_def)

lemma takeWhile_all: "\<forall>c \<in> set xs. P c \<Longrightarrow> takeWhile P xs = xs"
  by (induction xs) auto

lemma dropWhile_none: "xs \<noteq> [] \<Longrightarrow> \<not> P (hd xs) \<Longrightarrow> dropWhile P xs = xs"
  by (cases xs) auto

lemma parseInt_digits10: "parseInt (digits10 k) = to_double (int k)"
proof -
  let ?d = "digits10 k"
  have ne: "?d \<noteq> []" by (rule digits10_nonempty)
  have all: "\<forall>c \<in> set ?d. is_digit c" using digits10_digits by blast
  have hd: "is_digit (hd ?d)" using ne all by simp
  have drop: "dropWhile is_ws ?d = ?d"
    using ne digit_not_ws[OF hd] by (rule dropWhile_none)
  have sign: "hd ?d \<noteq> 43 \<and> hd ?d \<noteq> 45" by (rule digit_not_sign[OF hd])
  show ?thesis
    using ne sign
    by (simp add: parseInt_def drop Let_def takeWhile_all[OF all] digits_value_digits10)
qed

lemma parseInt_minus_digits10: "parseInt (45 # digits10 k) = to_double (- int k)"
proof -
  let ?d = "digits10 k"
  have ne: "?d \<noteq> []" by (rule digits10_nonempty)
  have all: "\<forall>c \<in> set ?d. is_digit c" using digits10_digits by blast
  have "\<not> is_ws 45" by (simp add: is_ws_def)
  then show ?thesis
    using ne by (simp add: parseInt_def Let_def takeWhile_all[OF all] digits_value_digits10)
qed

lemma parseInt_double:
  assumes "parseInt s = Num n"
  shows "to_double n = Num n"
proof -
  have "\<exists>m. to_double m = Num n"
    using assms by (auto simp: parseInt_def Let_def split: if_splits)
  then show ?thesis using to_double_idem by blast
qed

lemma parseInt_digits:
  assumes "z \<noteq> []" and "\<forall>c \<in> set z. is_digit c"
  shows "parseInt z = to_double (int (digits_value z))"
proof -
  have hd: "is_digit (hd z)" using assms by simp
  have drop: "dropWhile is_ws z = z"
    using assms(1) digit_not_ws[OF hd] by (rule dropWhile_none)
  have sign: "hd z \<noteq> 43 \<and> hd z \<noteq> 45" by (rule digit_not_sign[OF hd])
  show ?thesis
    using assms(1) sign
    by (simp add: parseInt_def drop Let_def takeWhile_all[OF assms(2)])
qed

lemma parseInt_NaN_iff: "isNaN (parseInt s) = (digit_run s = [])"
  by (simp add: parseInt_def digit_run_def isNaN_def Let_def to_double_def)

lemma digits_value_nines: "digits_value (replicate k 57) = 10 ^ k - 1"
proof (induction k)
  case 0
  show ?case by (simp add: digits_value_def)
next
  case (Suc k)
  have more: "replicate (Suc k) 57 = replicate k 57 @ [57::nat]"
    by (simp add: replicate_append_same)
  have "digits_value (replicate k 57 @ [57]) = 10 * digits_value (replicate k 57) + 9"
    by (simp add: digits_value_snoc)
  then have "digits_value (replicate (Suc k) 57) = 10 * (10 ^ k - 1) + 9"
    unfolding more Suc .
  moreover have "(1::nat) \<le> 10 ^ k" by simp
  ultimately show ?case by (simp add: algebra_simps)
qed

lemma parseInt_number_to_string:
  assumes "to_double n = Num n" and "\<bar>n\<bar> < 10 ^ 21"
  shows "parseInt (number_to_string (Num n)) = Num n"
proof -
  consider "n = 0" | "0 < n" | "n < 0" by linarith
  then show ?thesis
  proof cases
    case 1
    have "digits10 0 = u16 ''0''" by (simp add: digits10.simps u16_def)
    then have "parseInt (u16 ''0'') = to_double 0" using parseInt_digits10[of 0] by simp
    then show ?thesis using 1 by (simp add: number_to_string_def to_double_small)
  next
    case 2
    define x where "x = nat n"
    have n: "n = int x" using 2 by (simp add: x_def)
    have small: "x < 10 ^ 21" using assms(2) 2 by (simp add: x_def)
    have dbl: "to_double (int x) = Num (int x)" using assms(1) n by simp
    have "parseInt (positive_to_string x) = to_double (int (shortest_decimal x))"
      unfolding positive_to_string_plain[OF small dbl] by (rule parseInt_digits10)
    also have "\<dots> = Num (int x)" by (rule shortest_decimal_valid[OF dbl])
    finally show ?thesis using 2 n by (simp add: number_to_string_def)
  next
    case 3
    define x where "x = nat (- n)"
    have n: "n = - int x" using 3 by (simp add: x_def)
    have small: "x < 10 ^ 21" using assms(2) 3 by (simp add: x_def)
    have "negate (to_double (int x)) = Num (- int x)"
      using assms(1) unfolding n to_double_neg .
    then have dbl: "to_double (int x) = Num (int x)"
      by (cases "to_double (int x)") (simp_all add: negate_def)
    have "parseInt (45 # positive_to_string x) = to_double (- int (shortest_decimal x))"
      unfolding positive_to_string_plain[OF small dbl] by (rule parseInt_minus_digits10)
    also have "\<dots> = negate (to_double (int (shortest_decimal x)))" by (rule to_double_neg)
    also have "\<dots> = Num (- int x)"
      unfolding shortest_decimal_valid[OF dbl] by (simp add: negate_def)
    finally have reread: "parseInt (45 # positive_to_string x) = Num (- int x)" .
    have "number_to_string (Num n) = 45 # positive_to_string x"
      using 3 by (simp add: number_to_string_def x_def)
    then show ?thesis using reread n by simp
  qed
qed

lemma number_to_string_token:
  assumes "to_double n = Num n" and "\<bar>n\<bar> < 10 ^ 21"
  shows "number_to_string (Num n) \<noteq> [] \<and> ws_free (number_to_string (Num n))"
proof -
  have digits: "ws_free (digits10 k)" for k
    using digits10_digits digit_not_ws by (auto simp: ws_free_def)
  have minus: "\<not> is_ws 45" by (simp add: is_ws_def)
  have zero: "u16 ''0'' = digits10 0" by (simp add: digits10.simps u16_def)
  consider "n = 0" | "0 < n" | "n < 0" by linarith
  then show ?thesis
  proof cases
    case 1
    then show ?thesis
      using digits[of 0] by (simp add: number_to_string_def zero digits10_nonempty)
  next
    case 2
    have "to_double (int (nat n)) = Num (int (nat n))" using assms(1) 2 by simp
    moreover have "nat n < 10 ^ 21" using assms(2) 2 by simp
    ultimately have "positive_to_string (nat n) = digits10 (shortest_decimal (nat n))"
      by (intro positive_to_string_plain)
    then show ?thesis
      using 2 digits by (simp add: number_to_string_def digits10_nonempty)
  next
    case 3
    define x where "x = nat (- n)"
    have n: "n = - int x" using 3 by (simp add: x_def)
    have "negate (to_double (int x)) = Num (- int x)"
      using assms(1) unfolding n to_double_neg .
    then have dbl: "to_double (int x) = Num (int x)"
      by (cases "to_double (int x)") (simp_all add: negate_def)
    have "x < 10 ^ 21" using assms(2) 3 by (simp add: x_def)
    then have "positive_to_string x = digits10 (shortest_decimal x)"
      using dbl by (intro positive_to_string_plain)
    then show ?thesis
      using 3 digits minus by (simp add: number_to_string_def x_def ws_free_def)
  qed
qed

lemma split_ws_token: "t \<noteq> [] \<Longrightarrow> ws_free t \<Longrightarrow> split_ws t = [t]"
proof (induction t)
  case Nil
  then show ?case by simp
next
  case (Cons c t)
  have c: "\<not> is_ws c" and t: "ws_free t" using Cons.prems(2) by (simp_all add: ws_free_def)
  show ?case
  proof (cases "t = []")
    case True
    then show ?thesis using c by simp
  next
    case False
    then show ?thesis using Cons.IH[OF False t] c by simp
  qed
qed

lemma split_ws_append:
  "t \<noteq> [] \<Longrightarrow> ws_free t \<Longrightarrow> rest \<noteq> [] \<Longrightarrow> \<not> is_ws (hd rest) \<Longrightarrow>
     split_ws (t @ 32 # rest) = t # split_ws rest"
proof (induction t)
  case Nil
  then show ?case by simp
next
  case (Cons c t)
  have c: "\<not> is_ws c" and t: "ws_free t" using Cons.prems(2) by (simp_all add: ws_free_def)
  have sp: "is_ws 32" by (simp add: is_ws_def)
  show ?case
  proof (cases "t = []")
    case True
    have "dropWhile is_ws rest = rest" using Cons.prems(3,4) by (rule dropWhile_none)
    then show ?thesis using True c sp by simp
  next
    case False
    then show ?thesis using Cons.IH[OF False t Cons.prems(3,4)] c by simp
  qed
qed

lemma join_sp_Cons: "ts \<noteq> [] \<Longrightarrow> join_sp (t # ts) = t @ 32 # join_sp ts"
  by (cases ts) auto

lemma join_sp_snoc: "ts \<noteq> [] \<Longrightarrow> join_sp (ts @ [t]) = join_sp ts @ 32 # t"
  by (induction ts rule: join_sp.induct) auto

lemma join_sp_hd:
  "ts \<noteq> [] \<Longrightarrow> \<forall>t \<in> set ts. t \<noteq> [] \<and> ws_free t \<Longrightarrow>
     join_sp ts \<noteq> [] \<and> \<not> is_ws (hd (join_sp ts))"
proof -
  assume ne: "ts \<noteq> []" and all: "\<forall>t \<in> set ts. t \<noteq> [] \<and> ws_free t"
  then obtain t rest where ts: "ts = t # rest" by (cases ts) auto
  then have t: "t \<noteq> []" "ws_free t" using all by auto
  then have "\<not> is_ws (hd t)" by (cases t) (auto simp: ws_free_def)
  then show ?thesis using ts t by (cases rest) auto
qed

lemma join_sp_last:
  "ts \<noteq> [] \<Longrightarrow> \<forall>t \<in> set ts. t \<noteq> [] \<and> ws_free t \<Longrightarrow> \<not> is_ws (last (join_sp ts))"
proof (induction ts rule: join_sp.induct)
  case 1
  then show ?case by simp
next
  case (2 t)
  then show ?case by (auto simp: ws_free_def)
next
  case (3 t u ts)
  have "join_sp (u # ts) \<noteq> []" using join_sp_hd[of "u # ts"] 3(3) by simp
  then show ?case using 3 by simp
qed

lemma split_ws_join:
  "ts \<noteq> [] \<Longrightarrow> \<forall>t \<in> set ts. t \<noteq> [] \<and> ws_free t \<Longrightarrow> split_ws (join_sp ts) = ts"
proof (induction ts rule: join_sp.induct)
  case 1
  then show ?case by simp
next
  case (2 t)
  then show ?case by (simp add: split_ws_token)
next
  case (3 t u ts)
  have rest: "join_sp (u # ts) \<noteq> [] \<and> \<not> is_ws (hd (join_sp (u # ts)))"
    using join_sp_hd[of "u # ts"] 3(3) by simp
  have "split_ws (t @ 32 # join_sp (u # ts)) = t # split_ws (join_sp (u # ts))"
    using split_ws_append[of t "join_sp (u # ts)"] 3(3) rest by simp
  then show ?case using 3 by simp
qed

lemma trim_id: "s \<noteq> [] \<Longrightarrow> \<not> is_ws (hd s) \<Longrightarrow> \<not> is_ws (last s) \<Longrightarrow> trim s = s"
proof -
  assume s: "s \<noteq> []" and h: "\<not> is_ws (hd s)" and l: "\<not> is_ws (last s)"
  have "dropWhile is_ws s = s" using s h by (rule dropWhile_none)
  moreover have "dropWhile is_ws (rev s) = rev s"
    using s l by (intro dropWhile_none) (simp_all add: hd_rev)
  ultimately show ?thesis by (simp add: trim_def)
qed

lemma parse_line_wf:
  assumes "parse_line line = Parsed p" and "rank p = Num n" and "\<bar>n\<bar> < 10 ^ 21"
  shows "wf_player p"
proof -
  let ?parts = "split_ws (trim line)"
  note facts = parse_line_Parsed[OF assms(1)]
  have tok: "\<forall>t \<in> set ?parts. t \<noteq> [] \<and> ws_free t"
    using tokens_nonempty[OF facts(1)] split_ws_ws_free by blast
  have mid: "slice_middle ?parts \<noteq> []" by (rule parts_shape(2)[OF facts(2)])
  have midtok: "\<forall>t \<in> set (slice_middle ?parts). t \<noteq> [] \<and> ws_free t"
    using tok slice_middle_subset[of ?parts] by blast
  have "?parts ! (length ?parts - 1) \<in> set ?parts" using facts(2) by simp
  then have pos: "position p \<noteq> [] \<and> ws_free (position p)" using tok facts(6) by simp
  have "to_double n = Num n" using facts(3) assms(2) by (intro parseInt_double[of _ n]) simp
  then have rk: "\<exists>n. rank p = Num n \<and> to_double n = Num n \<and> \<bar>n\<bar> < 10 ^ 21"
    using assms(2,3) by blast
  show ?thesis
    unfolding wf_player_def using rk mid midtok facts(5) pos by blast
qed

lemma serialize_player_join:
  assumes "mid \<noteq> []" and "name p = join_sp mid"
  shows "serialize_player p = join_sp (number_to_string (rank p) # mid @ [position p])"
  using assms by (simp add: serialize_player_def join_sp_Cons join_sp_snoc)

lemma slice_middle_parts: "slice_middle (a # mid @ [b]) = mid"
  by (simp add: slice_middle_eq)

lemma parse_line_serialize:
  assumes "wf_player p"
  shows "parse_line (serialize_player p) = Parsed p"
proof -
  obtain n mid where n: "rank p = Num n" and dbl: "to_double n = Num n"
    and small: "\<bar>n\<bar> < 10 ^ 21" and mid: "mid \<noteq> []"
    and midtok: "\<forall>t \<in> set mid. t \<noteq> [] \<and> ws_free t" and nm: "name p = join_sp mid"
    and pos: "position p \<noteq> []" "ws_free (position p)"
    using assms unfolding wf_player_def by blast
  let ?num = "number_to_string (Num n)"
  let ?parts = "?num # mid @ [position p]"
  have line: "serialize_player p = join_sp ?parts"
    using serialize_player_join[OF mid nm] n by simp
  have tok: "\<forall>t \<in> set ?parts. t \<noteq> [] \<and> ws_free t"
    using number_to_string_token[OF dbl small] midtok pos by auto
  have ends: "join_sp ?parts \<noteq> [] \<and> \<not> is_ws (hd (join_sp ?parts))"
    by (rule join_sp_hd[OF _ tok]) simp
  have last: "\<not> is_ws (last (join_sp ?parts))"
    by (rule join_sp_last[OF _ tok]) simp
  have trim: "trim (serialize_player p) = join_sp ?parts"
    using trim_id[of "join_sp ?parts"] ends last line by simp
  have parts: "split_ws (join_sp ?parts) = ?parts"
    by (rule split_ws_join[OF _ tok]) simp
  have len: "3 \<le> length ?parts" using mid by (cases mid) auto
  have lastp: "?parts ! (length ?parts - 1) = position p"
    by (simp add: nth_append)
  have nmne: "join_sp mid \<noteq> []" using join_sp_hd[OF mid midtok] by simp
  have "parse_line (serialize_player p)
      = Parsed \<lparr>rank = Num n, name = join_sp mid, position = position p\<rparr>"
    unfolding parse_line_def trim parts
    using ends len pos(1) nmne mid
    by (simp only: Let_def lastp slice_middle_parts nth_Cons_0 parseInt_number_to_string[OF dbl small])
       (simp add: check_fields_def isNaN_def)
  then show ?thesis using n nm by simp
qed

lemma parse_lines_serialize:
  "\<forall>p \<in> set ps. wf_player p \<Longrightarrow>
     parse_lines (map serialize_player ps) acc = \<lparr>players = acc @ ps, error = None\<rparr>"
  by (induction ps arbitrary: acc) (simp_all add: parse_line_serialize)

lemma serialize_player_line:
  assumes "wf_player p"
  shows "serialize_player p \<noteq> []" and "\<not> is_ws (hd (serialize_player p))"
    and "\<not> is_ws (last (serialize_player p))" and "10 \<notin> set (serialize_player p)"
proof -
  obtain n mid where n: "rank p = Num n" and dbl: "to_double n = Num n"
    and small: "\<bar>n\<bar> < 10 ^ 21" and mid: "mid \<noteq> []"
    and midtok: "\<forall>t \<in> set mid. t \<noteq> [] \<and> ws_free t" and nm: "name p = join_sp mid"
    and pos: "position p \<noteq> []" "ws_free (position p)"
    using assms unfolding wf_player_def by blast
  let ?parts = "number_to_string (Num n) # mid @ [position p]"
  have line: "serialize_player p = join_sp ?parts"
    using serialize_player_join[OF mid nm] n by simp
  have tok: "\<forall>t \<in> set ?parts. t \<noteq> [] \<and> ws_free t"
    using number_to_string_token[OF dbl small] midtok pos by auto
  have ends: "join_sp ?parts \<noteq> [] \<and> \<not> is_ws (hd (join_sp ?parts))"
    by (rule join_sp_hd[OF _ tok]) simp
  show "serialize_player p \<noteq> []" "\<not> is_ws (hd (serialize_player p))"
    using ends line by simp_all
  show "\<not> is_ws (last (serialize_player p))"
    unfolding line by (rule join_sp_last[OF _ tok]) simp
  have nl: "is_ws 10" by (simp add: is_ws_def)
  have "10 \<notin> set (join_sp ts)" if "\<forall>t \<in> set ts. ws_free t" for ts
    using that nl by (induction ts rule: join_sp.induct) (auto simp: ws_free_def)
  then show "10 \<notin> set (serialize_player p)" unfolding line using tok by blast
qed

lemma split_on_none: "sep \<notin> set l \<Longrightarrow> split_on sep l = [l]"
  by (induction l) auto

lemma split_on_append:
  "sep \<notin> set l \<Longrightarrow> split_on sep (l @ sep # rest) = l # split_on sep rest"
  by (induction l) auto

lemma split_on_join_nl:
  "ls \<noteq> [] \<Longrightarrow> \<forall>l \<in> set ls. 10 \<notin> set l \<Longrightarrow> split_on 10 (join_nl ls) = ls"
proof (induction ls rule: join_nl.induct)
  case 1
  then show ?case by simp
next
  case (2 l)
  then show ?case by (simp add: split_on_none)
next
  case (3 l k ls)
  then show ?case using split_on_append[of 10 l "join_nl (k # ls)"] by simp
qed

lemma join_nl_ends:
  "ls \<noteq> [] \<Longrightarrow> \<forall>l \<in> set ls. l \<noteq> [] \<and> \<not> is_ws (hd l) \<and> \<not> is_ws (last l) \<Longrightarrow>
     join_nl ls \<noteq> [] \<and> \<not> is_ws (hd (join_nl ls)) \<and> \<not> is_ws (last (join_nl ls))"
proof (induction ls rule: join_nl.induct)
  case 1
  then show ?case by simp
next
  case (2 l)
  then show ?case by simp
next
  case (3 l k ls)
  then show ?case by auto
qed

lemma parse_serialize:
  assumes "\<forall>p \<in> set ps. wf_player p"
  shows "parsePlayerText (serialize ps) = \<lparr>players = ps, error = None\<rparr>"
proof (cases "ps = []")
  case True
  then show ?thesis
    by (simp add: serialize_def parsePlayerText_def trim_def parse_line_def)
next
  case False
  let ?ls = "map serialize_player ps"
  have ne: "?ls \<noteq> []" using False by simp
  have ends: "\<forall>l \<in> set ?ls. l \<noteq> [] \<and> \<not> is_ws (hd l) \<and> \<not> is_ws (last l)"
    using assms serialize_player_line(1,2,3) by auto
  have nonl: "\<forall>l \<in> set ?ls. 10 \<notin> set l"
    using assms serialize_player_line(4) by auto
  have "trim (join_nl ?ls) = join_nl ?ls"
    using join_nl_ends[OF ne ends] by (simp add: trim_id)
  then have "parsePlayerText (serialize ps) = parse_lines ?ls []"
    using split_on_join_nl[OF ne nonl] by (simp add: parsePlayerText_def serialize_def)
  then show ?thesis using parse_lines_serialize[OF assms, of "[]"] by simp
qed

section \<open>Snake placement\<close>

text \<open>
  C1: for a non-empty player list and a team count of at least one, the player at
  zero-based position \<open>i\<close> is found in round \<open>i div teamCount\<close> of the team with index
  \<open>i mod teamCount\<close> when that round is even and \<open>teamCount - 1 - i mod teamCount\<close>
  when it is odd; that team is the one labelled \<open>Team (index + 1)\<close>. With three teams
  and seven players, team 1 holds players 1, 6, 7, team 2 holds players 2, 5 and an empty
  slot, and team 3 holds players 3, 4 and an empty slot.
\<close>

theorem snake_placement_rule:
  assumes "roster \<noteq> []" and "1 \<le> numTeams" and "i < length roster"
  shows "(let n = nat numTeams;
              round = i div n;
              team = (if even round then i mod n else n - 1 - i mod n);
              board = generateSnakeDraft roster numTeams
          in team < n \<and> obj_keys board ! team = teamKey team \<and>
             (\<exists>column. obj_get board (teamKey team) = Some column \<and>
                round < length column \<and> column ! round = Some (roster ! i)))
     \<and> generateSnakeDraft [p1, p2, p3, p4, p5, p6, p7] 3 =
         [(u16 ''Team 1'', [Some p1, Some p6, Some p7]),
          (u16 ''Team 2'', [Some p2, Some p5, None]),
          (u16 ''Team 3'', [Some p3, Some p4, None])]"
proof -
  let ?n = "nat numTeams"
  let ?R = "ceil_div (length roster) ?n"
  let ?t = "teamIndexOf ?n i"
  have pos: "0 < ?n" using assms(2) by simp
  have t: "?t < ?n" using pos by (rule teamIndexOf_less)
  have r: "i div ?n < ?R"
    using assms(3) le_ceil_div[OF pos, of "length roster"] pos
    by (simp add: less_mult_imp_div_less)
  have team: "(if even (i div ?n) then i mod ?n else ?n - 1 - i mod ?n) = ?t"
    by (simp add: teamIndexOf_def Let_def even_iff_mod_2_eq_zero)
  have keys: "obj_keys (generateSnakeDraft roster numTeams) ! ?t = teamKey ?t"
    using t by (simp add: board_keys[OF assms(1,2)])
  have col: "obj_get (generateSnakeDraft roster numTeams) (teamKey ?t)
      = Some (map (\<lambda>r. snake_cell ?n roster r ?t) [0..<?R])"
    by (rule board_column[OF assms(1,2) t])
  have cell: "map (\<lambda>r. snake_cell ?n roster r ?t) [0..<?R] ! (i div ?n) = Some (roster ! i)"
    using r assms(3) by (simp add: snake_cell_def cell_index_inv[OF pos])
  have "?t < ?n \<and> obj_keys (generateSnakeDraft roster numTeams) ! ?t = teamKey ?t \<and>
       (\<exists>column. obj_get (generateSnakeDraft roster numTeams) (teamKey ?t) = Some column \<and>
          i div ?n < length column \<and> column ! (i div ?n) = Some (roster ! i))"
    using t keys col cell r by simp
  then show ?thesis
    unfolding Let_def team by (simp only: seven_players_three_teams simp_thms)
qed

theorem snake_placement_rule_witness:
  "sample_players 7 \<noteq> [] \<and> (1::int) \<le> 3 \<and> 3 < length (sample_players 7)
   \<and> obj_keys (generateSnakeDraft (sample_players 7) 3) ! 2 = u16 ''Team 3''
   \<and> (\<exists>column. obj_get (generateSnakeDraft (sample_players 7) 3) (u16 ''Team 3'') = Some column
         \<and> 1 < length column \<and> column ! 1 = Some (sample_players 7 ! 3))"
proof -
  have seven: "sample_players 7 = map (\<lambda>i. \<lparr>rank = Num (int i), name = u16 ''Player'',
      position = u16 ''QB''\<rparr>) [1, 2, 3, 4, 5, 6, 7]"
    by (simp add: sample_players_def upt_rec)
  have h1: "sample_players 7 \<noteq> []" and h3: "3 < length (sample_players 7)"
    by (simp_all add: seven)
  have h2: "(1::int) \<le> 3" by simp
  show ?thesis
    using snake_placement_rule[OF h1 h2 h3] h1 h3
    by (simp add: Let_def teamKey_simps[symmetric])
qed

section \<open>Shape of the board\<close>

text \<open>
  C2: for a non-empty player list and a team count of at least one, the board has one
  column per team, every column has \<open>ceil(playerCount / teamCount)\<close> cells, exactly
  \<open>playerCount\<close> cells of the board hold a player and all the others hold the
  empty-slot marker.
\<close>

theorem board_shape:
  assumes "roster \<noteq> []" and "1 \<le> numTeams"
  shows "let board = generateSnakeDraft roster numTeams;
             numRounds = nat \<lceil>real (length roster) / real_of_int numTeams\<rceil>
         in length board = nat numTeams
          \<and> (\<forall>(teamName, column) \<in> set board. length column = numRounds)
          \<and> length (board_cells board) = nat numTeams * numRounds
          \<and> length (filter (\<lambda>c. c \<noteq> None) (board_cells board)) = length roster
          \<and> length (filter (\<lambda>c. c = None) (board_cells board))
              = nat numTeams * numRounds - length roster"
proof -
  let ?n = "nat numTeams"
  let ?R = "ceil_div (length roster) ?n"
  let ?board = "generateSnakeDraft roster numTeams"
  have pos: "0 < ?n" using assms(2) by simp
  have R: "nat \<lceil>real (length roster) / real_of_int numTeams\<rceil> = ?R"
    using ceil_div_ceiling[OF pos, of "length roster"] assms(2) by simp
  have eq: "?board = map (\<lambda>t. (teamKey t, map (\<lambda>r. snake_cell ?n roster r t) [0..<?R])) [0..<?n]"
    by (rule generateSnakeDraft_eq[OF assms])
  have teams: "length ?board = ?n" by (simp add: eq)
  have cols: "\<forall>(teamName, column) \<in> set ?board. length column = ?R"
    by (auto simp: eq)
  have total: "length (board_cells ?board) = ?n * ?R"
    by (simp add: eq board_cells_def length_concat comp_def sum_list_triv)
  have some: "length (filter (\<lambda>c. c \<noteq> None) (board_cells ?board)) = length roster"
    by (rule count_players[OF assms])
  have "length (filter (\<lambda>c. c \<noteq> None) (board_cells ?board))
      + length (filter (\<lambda>c. c = None) (board_cells ?board)) = length (board_cells ?board)"
    using sum_length_filter_compl[of "\<lambda>c. c \<noteq> None" "board_cells ?board"] by simp
  then have none: "length (filter (\<lambda>c. c = None) (board_cells ?board)) = ?n * ?R - length roster"
    using some total by simp
  show ?thesis
    unfolding Let_def R using teams cols total some none by blast
qed

theorem board_shape_witness:
  "sample_players 7 \<noteq> [] \<and> (1::int) \<le> 3
   \<and> length (generateSnakeDraft (sample_players 7) 3) = 3
   \<and> map (\<lambda>(teamName, column). length column) (generateSnakeDraft (sample_players 7) 3) = [3, 3, 3]
   \<and> length (board_cells (generateSnakeDraft (sample_players 7) 3)) = 9
   \<and> length (filter (\<lambda>c. c \<noteq> None) (board_cells (generateSnakeDraft (sample_players 7) 3))) = 7
   \<and> length (filter (\<lambda>c. c = None) (board_cells (generateSnakeDraft (sample_players 7) 3))) = 2"
proof -
  have seven: "length (sample_players 7) = 7" by (simp add: sample_players_def)
  then have h1: "sample_players 7 \<noteq> []" by auto
  have h2: "(1::int) \<le> 3" by simp
  have columns:
    "map (\<lambda>(teamName, column). length column) (generateSnakeDraft (sample_players 7) 3) = [3, 3, 3]"
    by code_simp
  show ?thesis
    using board_shape[OF h1 h2] h1 columns by (simp add: Let_def seven)
qed

section \<open>Overall pick numbers\<close>

text \<open>
  C3, as the code has it: for every player list and a team count of at least one,
  the cell that received the player of position \<open>i\<close> shows the overall pick number
  \<open>i + 1\<close>; read round by round, left to right in even rounds and right to left in odd
  rounds, the occupied cells show the players in input order with the pick numbers
  \<open>1\<close> to \<open>playerCount\<close>; the cards the component renders are the same cards,
  in another order.
\<close>

theorem overall_pick_snake_order:
  assumes "1 \<le> numTeams"
  shows "let board = generateSnakeDraft roster numTeams; n = nat numTeams in
     (\<forall>i < length roster.
        let round = i div n;
            team = (if even round then i mod n else n - 1 - i mod n)
        in board_player board team round = Some (roster ! i)
           \<and> overallPick numTeams round team = int i + 1)
     \<and> concat (map (\<lambda>r. concat (map (card_at board numTeams r)
                          (if even r then [0..<n] else rev [0..<n])))
               [0..<numRounds_of board])
         = map (\<lambda>i. (roster ! i, int i + 1)) [0..<length roster]
     \<and> mset (DraftBoard_cards board numTeams)
         = mset (map (\<lambda>i. (roster ! i, int i + 1)) [0..<length roster])"
proof (cases "roster = []")
  case True
  then show ?thesis
    by (simp add: generateSnakeDraft_def DraftBoard_cards_def numRounds_of_def obj_keys_def)
next
  case False
  note both = False assms
  let ?n = "nat numTeams"
  let ?R = "ceil_div (length roster) ?n"
  let ?B = "generateSnakeDraft roster numTeams"
  have pos: "0 < ?n" using assms by simp
  have nn: "int ?n = numTeams" using assms by simp
  have cellwise: "board_player ?B (if even (i div ?n) then i mod ?n else ?n - 1 - i mod ?n) (i div ?n)
        = Some (roster ! i)
      \<and> overallPick numTeams (i div ?n) (if even (i div ?n) then i mod ?n else ?n - 1 - i mod ?n)
        = int i + 1" if i: "i < length roster" for i
  proof -
    have team: "(if even (i div ?n) then i mod ?n else ?n - 1 - i mod ?n) = teamIndexOf ?n i"
      by (simp add: teamIndexOf_def Let_def even_iff_mod_2_eq_zero)
    have t: "teamIndexOf ?n i < ?n" using pos by (rule teamIndexOf_less)
    have r: "i div ?n < ?R"
      using i le_ceil_div[OF pos, of "length roster"] pos
      by (simp add: less_mult_imp_div_less)
    have "board_player ?B (teamIndexOf ?n i) (i div ?n) = Some (roster ! i)"
      using i by (simp add: board_player_cell[OF both t r] snake_cell_def cell_index_inv[OF pos])
    moreover have "overallPick numTeams (i div ?n) (teamIndexOf ?n i) = int i + 1"
      using overallPick_cell_index[OF t, of "i div ?n"]
      by (simp only: nn cell_index_inv[OF pos])
    ultimately show ?thesis by (simp only: team simp_thms)
  qed
  show ?thesis
    unfolding Let_def board_numRounds[OF both]
    using cellwise snake_traversal[OF both] DraftBoard_cards_mset[OF both] by blast
qed

theorem overall_pick_snake_order_witness:
  "sample_players 4 \<noteq> [] \<and> (1::int) \<le> 2 \<and> (3::nat) < length (sample_players 4)
   \<and> board_player (generateSnakeDraft (sample_players 4) 2) 0 1 = Some (sample_players 4 ! 3)
   \<and> overallPick 2 1 0 = 4"
proof -
  have four: "length (sample_players 4) = 4" by (simp add: sample_players_def)
  then have h1: "sample_players 4 \<noteq> []" by auto
  have h2: "(1::int) \<le> 2" by simp
  have h3: "(3::nat) < length (sample_players 4)" by (simp add: four)
  have "\<forall>i < length (sample_players 4).
     board_player (generateSnakeDraft (sample_players 4) 2)
       (if even (i div 2) then i mod 2 else 2 - 1 - i mod 2) (i div 2) = Some (sample_players 4 ! i)
     \<and> overallPick 2 (i div 2) (if even (i div 2) then i mod 2 else 2 - 1 - i mod 2) = int i + 1"
    using overall_pick_snake_order[OF h2] by (simp add: Let_def)
  from this[rule_format, OF h3] show ?thesis using h1 h3 by simp
qed

theorem physical_column_order_counterexample:
  "map snd (DraftBoard_cards (generateSnakeDraft (sample_players 4) 2) 2) = [1, 2, 4, 3]
   \<and> \<not> sorted_wrt (<) (map snd (DraftBoard_cards (generateSnakeDraft (sample_players 4) 2) 2))"
  by code_simp

section \<open>Degenerate inputs of the assigner\<close>

text \<open>
  C4: with an empty player list, whatever the team count, and with a team count of zero
  or less, whatever the players, the assigner returns the empty mapping: no team key at
  all. The assigner is a total function, so it returns in both cases.
\<close>

theorem generateSnakeDraft_degenerate:
  "generateSnakeDraft [] numTeams = []
   \<and> (numTeams \<le> 0 \<longrightarrow> generateSnakeDraft roster numTeams = [])
   \<and> obj_keys (generateSnakeDraft [] numTeams) = []
   \<and> (numTeams \<le> 0 \<longrightarrow> obj_keys (generateSnakeDraft roster numTeams) = [])"
  by (simp add: generateSnakeDraft_def obj_keys_def)

theorem generateSnakeDraft_degenerate_witness:
  "(0::int) \<le> 0
   \<and> generateSnakeDraft [\<lparr>rank = Num 1, name = u16 ''A'', position = u16 ''QB''\<rparr>] 0 = []
   \<and> generateSnakeDraft [] 3 = []"
  using generateSnakeDraft_degenerate
    [of 0 "[\<lparr>rank = Num 1, name = u16 ''A'', position = u16 ''QB''\<rparr>]"]
    generateSnakeDraft_degenerate [of 3 "[]"]
  by simp

section \<open>Toggling a pick\<close>

text \<open>
  C9: \<open>togglePicked r\<close> flips the membership of \<open>r\<close>, leaves the membership of every
  other rank as it was, applied twice gives back the original set, and is not idempotent.
\<close>

theorem togglePicked_involution:
  "(r \<in> togglePicked r S) = (r \<notin> S)
   \<and> (\<forall>q. q \<noteq> r \<longrightarrow> (q \<in> togglePicked r S) = (q \<in> S))
   \<and> togglePicked r (togglePicked r S) = S
   \<and> togglePicked r (togglePicked r S) \<noteq> togglePicked r S"
  by (auto simp: togglePicked_def)

theorem togglePicked_involution_witness:
  "Num 1 \<noteq> Num 2
   \<and> Num 2 \<notin> togglePicked (Num 2) {Num 1, Num 2}
   \<and> Num 1 \<in> togglePicked (Num 2) {Num 1, Num 2}
   \<and> togglePicked (Num 2) (togglePicked (Num 2) {Num 1, Num 2}) = {Num 1, Num 2}
   \<and> togglePicked (Num 2) (togglePicked (Num 2) {Num 1, Num 2})
       \<noteq> togglePicked (Num 2) {Num 1, Num 2}"
  using togglePicked_involution [of "Num 2" "{Num 1, Num 2}"]
  by auto

section \<open>Malformed lines\<close>

text \<open>
  C5, as the code has it: when some non-blank line of the text has fewer than three tokens,
  the parser returns no players and an error. The error is the malformed-line message
  quoting that line verbatim when no earlier line fails; an earlier failing line is
  reported instead.
\<close>

theorem malformed_line_aborts:
  assumes "lines = split_on 10 (trim text)" and "i < length lines"
    and "trim (lines ! i) \<noteq> []" and "length (split_ws (trim (lines ! i))) < 3"
  shows "players (parsePlayerText text) = []
     \<and> error (parsePlayerText text) \<noteq> None
     \<and> ((\<forall>j<i. \<forall>m. parse_line (lines ! j) \<noteq> Failed m) \<longrightarrow>
          parsePlayerText text = \<lparr>players = [], error = Some (malformed_msg (lines ! i))\<rparr>)"
proof -
  have failed: "parse_line (lines ! i) = Failed (malformed_msg (lines ! i))"
    by (rule parse_line_malformed[OF assms(3,4)])
  have "lines ! i \<in> set lines" using assms(2) by simp
  then obtain m' where "parse_lines lines [] = \<lparr>players = [], error = Some m'\<rparr>"
    using parse_lines_some_failure[OF _ failed, of lines "[]"] by blast
  then have any: "players (parsePlayerText text) = [] \<and> error (parsePlayerText text) \<noteq> None"
    using assms(1) by (simp add: parsePlayerText_def)
  have first: "parsePlayerText text = \<lparr>players = [], error = Some (malformed_msg (lines ! i))\<rparr>"
    if "\<forall>j<i. \<forall>m. parse_line (lines ! j) \<noteq> Failed m"
    using parse_lines_first_failure[OF assms(2) failed that, of "[]"] assms(1)
    by (simp add: parsePlayerText_def)
  show ?thesis using any first by blast
qed

theorem malformed_line_aborts_witness:
  "(1::nat) < length (split_on 10 (trim text_good_then_short))
   \<and> split_on 10 (trim text_good_then_short) ! 1 = u16 '' 2 B''
   \<and> trim (u16 '' 2 B'') \<noteq> []
   \<and> length (split_ws (trim (u16 '' 2 B''))) < 3
   \<and> parsePlayerText text_good_then_short
       = \<lparr>players = [], error = Some (malformed_msg (u16 '' 2 B''))\<rparr>"
proof -
  have ls: "split_on 10 (trim text_good_then_short) = [u16 ''1 A QB'', u16 '' 2 B'']"
    by (simp add: text_good_then_short_def eval_simps)
  have h2: "(1::nat) < length (split_on 10 (trim text_good_then_short))" by (simp add: ls)
  have h3: "trim (split_on 10 (trim text_good_then_short) ! 1) \<noteq> []"
    by (simp add: ls) (simp add: eval_simps)
  have h4: "length (split_ws (trim (split_on 10 (trim text_good_then_short) ! 1))) < 3"
    by (simp add: ls) (simp add: eval_simps)
  have ok: "parse_line (u16 ''1 A QB'')
      = Parsed \<lparr>rank = Num 1, name = u16 ''A'', position = u16 ''QB''\<rparr>"
    by (simp add: eval_simps)
  have earlier: "\<forall>j<1. \<forall>m. parse_line (split_on 10 (trim text_good_then_short) ! j) \<noteq> Failed m"
    by (simp add: ls ok)
  show ?thesis
    using malformed_line_aborts[OF refl h2 h3 h4] earlier h2 h3 h4 by (simp add: ls)
qed

theorem malformed_line_masked_counterexample:
  "split_on 10 (trim text_rank_then_short) = [u16 ''x A QB'', u16 ''1 A'']
   \<and> length (split_ws (trim (u16 ''1 A''))) = 2
   \<and> parsePlayerText text_rank_then_short
       = \<lparr>players = [], error = Some (unparsed_msg (u16 ''x A QB''))\<rparr>
   \<and> error (parsePlayerText text_rank_then_short) \<noteq> Some (malformed_msg (u16 ''1 A''))"
  by (simp add: text_rank_then_short_def eval_simps unparsed_msg_def malformed_msg_def)

section \<open>Lines whose rank does not parse\<close>

text \<open>
  C6, as the code has it: when the first failing line of the text is a non-blank line with
  at least three tokens whose first token gives \<open>NaN\<close> under \<open>parseInt\<close>, that is, has
  no decimal digit right after its optional sign, the parser returns no players and the
  could-not-parse message quoting that line. A first token that only begins with digits,
  such as \<open>12abc\<close> or \<open>1.9\<close>, is accepted with the value of those digits. The message
  differs from the malformed-line message, and it is the very message the combined check
  returns for an empty name or an empty position.
\<close>

theorem invalid_rank_aborts:
  assumes "lines = split_on 10 (trim text)" and "i < length lines"
    and "trim (lines ! i) \<noteq> []" and "3 \<le> length (split_ws (trim (lines ! i)))"
    and "isNaN (parseInt (split_ws (trim (lines ! i)) ! 0))"
    and "\<forall>j<i. \<forall>m. parse_line (lines ! j) \<noteq> Failed m"
  shows "parsePlayerText text = \<lparr>players = [], error = Some (unparsed_msg (lines ! i))\<rparr>
     \<and> isNaN (parseInt token) = (digit_run token = [])
     \<and> unparsed_msg (lines ! i) \<noteq> malformed_msg other
     \<and> check_fields (lines ! i) NaN nameValue positionValue = Some (unparsed_msg (lines ! i))
     \<and> check_fields (lines ! i) rankValue [] positionValue = Some (unparsed_msg (lines ! i))
     \<and> check_fields (lines ! i) rankValue nameValue [] = Some (unparsed_msg (lines ! i))"
proof -
  have failed: "parse_line (lines ! i) = Failed (unparsed_msg (lines ! i))"
    using parse_line_unparsed[OF assms(3,4)] assms(5) by simp
  have "parsePlayerText text = \<lparr>players = [], error = Some (unparsed_msg (lines ! i))\<rparr>"
    using parse_lines_first_failure[OF assms(2) failed assms(6), of "[]"] assms(1)
    by (simp add: parsePlayerText_def)
  then show ?thesis
    by (simp add: messages_differ check_fields_def parseInt_NaN_iff) (simp add: isNaN_def)
qed

theorem invalid_rank_aborts_witness:
  "(1::nat) < length (split_on 10 (trim text_good_then_rank))
   \<and> split_on 10 (trim text_good_then_rank) ! 1 = u16 ''x Bo Jo RB''
   \<and> trim (u16 ''x Bo Jo RB'') \<noteq> []
   \<and> 3 \<le> length (split_ws (trim (u16 ''x Bo Jo RB'')))
   \<and> isNaN (parseInt (split_ws (trim (u16 ''x Bo Jo RB'')) ! 0))
   \<and> parse_line (split_on 10 (trim text_good_then_rank) ! 0)
       = Parsed \<lparr>rank = Num 1, name = u16 ''A'', position = u16 ''QB''\<rparr>
   \<and> parsePlayerText text_good_then_rank
       = \<lparr>players = [], error = Some (unparsed_msg (u16 ''x Bo Jo RB''))\<rparr>"
proof -
  have ls: "split_on 10 (trim text_good_then_rank) = [u16 ''1 A QB'', u16 ''x Bo Jo RB'']"
    by (simp add: text_good_then_rank_def eval_simps)
  have h2: "(1::nat) < length (split_on 10 (trim text_good_then_rank))" by (simp add: ls)
  have h3: "trim (split_on 10 (trim text_good_then_rank) ! 1) \<noteq> []"
    by (simp add: ls) (simp add: eval_simps)
  have h4: "3 \<le> length (split_ws (trim (split_on 10 (trim text_good_then_rank) ! 1)))"
    by (simp add: ls) (simp add: eval_simps)
  have h5: "isNaN (parseInt (split_ws (trim (split_on 10 (trim text_good_then_rank) ! 1)) ! 0))"
    by (simp add: ls) (simp add: eval_simps)
  have ok: "parse_line (u16 ''1 A QB'')
      = Parsed \<lparr>rank = Num 1, name = u16 ''A'', position = u16 ''QB''\<rparr>"
    by (simp add: eval_simps)
  have h6: "\<forall>j<1. \<forall>m. parse_line (split_on 10 (trim text_good_then_rank) ! j) \<noteq> Failed m"
    by (simp add: ls ok)
  show ?thesis
    using invalid_rank_aborts[OF refl h2 h3 h4 h5 h6] h2 h3 h4 h5 ok by (simp add: ls)
qed

theorem invalid_rank_accepted_counterexample:
  "parsePlayerText (u16 ''12abc A QB'')
     = \<lparr>players = [\<lparr>rank = Num 12, name = u16 ''A'', position = u16 ''QB''\<rparr>], error = None\<rparr>
   \<and> parsePlayerText (u16 ''1.9 C TE'')
     = \<lparr>players = [\<lparr>rank = Num 1, name = u16 ''C'', position = u16 ''TE''\<rparr>], error = None\<rparr>
   \<and> parsePlayerText text_short_then_rank
     = \<lparr>players = [], error = Some (malformed_msg (u16 ''1 A''))\<rparr>
   \<and> error (parsePlayerText text_short_then_rank) \<noteq> Some (unparsed_msg (u16 ''x A QB''))"
  by (simp add: text_short_then_rank_def eval_simps unparsed_msg_def malformed_msg_def)

section \<open>Fields of a parsed record\<close>

text \<open>
  C7, as the code has it: every record of a parsed player list has a rank that is a number
  other than \<open>NaN\<close>: an integer-valued double of magnitude below \<open>2 ^ 1024\<close>, possibly
  zero or negative, or an infinity when the digits exceed the range of doubles. Its name
  is non-empty and its position is non-empty and without white space.
\<close>

theorem parsed_record_fields:
  assumes "p \<in> set (players (parsePlayerText text))"
  shows "\<not> isNaN (rank p)
     \<and> ((\<exists>n. rank p = Num n \<and> to_double n = Num n \<and> \<bar>n\<bar> < 2 ^ 1024)
          \<or> rank p = PosInf \<or> rank p = NegInf)
     \<and> name p \<noteq> [] \<and> position p \<noteq> [] \<and> ws_free (position p)"
proof -
  obtain line where line: "parse_line line = Parsed p"
    using parse_lines_players[of p "split_on 10 (trim text)" "[]"] assms
    by (auto simp: parsePlayerText_def)
  let ?parts = "split_ws (trim line)"
  note facts = parse_line_Parsed[OF line]
  have shape: "join_sp (slice_middle ?parts) \<noteq> [] \<and> ?parts ! (length ?parts - 1) \<noteq> []"
    using fields_nonempty[OF facts(1,2)] by simp
  have "?parts ! (length ?parts - 1) \<in> set ?parts" using facts(2) by simp
  then have free: "ws_free (position p)" using facts(6) split_ws_ws_free by simp
  have number: "(\<exists>n. rank p = Num n \<and> to_double n = Num n \<and> \<bar>n\<bar> < 2 ^ 1024)
      \<or> rank p = PosInf \<or> rank p = NegInf"
  proof (cases "rank p")
    case NaN
    then show ?thesis using facts(4) by simp
  next
    case (Num n)
    then have "parseInt (?parts ! 0) = Num n" using facts(3) by simp
    then have dbl: "to_double n = Num n" by (rule parseInt_double)
    then have "\<bar>n\<bar> < 2 ^ 1024" by (rule to_double_bound)
    then show ?thesis using Num dbl by blast
  next
    case PosInf
    then show ?thesis by simp
  next
    case NegInf
    then show ?thesis by simp
  qed
  show ?thesis using shape facts(4,5,6) free number by (simp add: isNaN_def)
qed

theorem parsed_record_fields_witness:
  "\<lparr>rank = Num 7, name = u16 ''Bo Jo'', position = u16 ''RB''\<rparr>
     \<in> set (players (parsePlayerText (u16 ''7  Bo Jo RB'')))
   \<and> \<not> isNaN (Num 7) \<and> to_double 7 = Num 7
   \<and> u16 ''Bo Jo'' \<noteq> [] \<and> u16 ''RB'' \<noteq> [] \<and> ws_free (u16 ''RB'')"
proof -
  have h: "\<lparr>rank = Num 7, name = u16 ''Bo Jo'', position = u16 ''RB''\<rparr>
     \<in> set (players (parsePlayerText (u16 ''7  Bo Jo RB'')))"
    by (simp add: eval_simps)
  show ?thesis using parsed_record_fields[OF h] h by simp
qed

theorem rank_below_one_counterexample:
  "parsePlayerText (u16 ''0 A QB'')
     = \<lparr>players = [\<lparr>rank = Num 0, name = u16 ''A'', position = u16 ''QB''\<rparr>], error = None\<rparr>
   \<and> parsePlayerText (u16 ''-5 A QB'')
     = \<lparr>players = [\<lparr>rank = Num (- 5), name = u16 ''A'', position = u16 ''QB''\<rparr>], error = None\<rparr>
   \<and> parsePlayerText text_huge_rank
     = \<lparr>players = [\<lparr>rank = PosInf, name = u16 ''A'', position = u16 ''QB''\<rparr>], error = None\<rparr>"
proof -
  let ?t = "replicate 310 (57::nat)"
  let ?parts = "[?t, u16 ''A'', u16 ''QB'']"
  have line: "text_huge_rank = join_sp ?parts"
    by (simp add: text_huge_rank_def u16_def)
  have digits: "\<forall>c \<in> set ?t. is_digit c" by (simp add: is_digit_def)
  have tok: "\<forall>t \<in> set ?parts. t \<noteq> [] \<and> ws_free t"
    using digits digit_not_ws by (auto simp: ws_free_def u16_def is_ws_def)
  have ends: "join_sp ?parts \<noteq> [] \<and> \<not> is_ws (hd (join_sp ?parts))"
    by (rule join_sp_hd[OF _ tok]) simp
  have last: "\<not> is_ws (last (join_sp ?parts))"
    by (rule join_sp_last[OF _ tok]) simp
  have trim: "trim (join_sp ?parts) = join_sp ?parts"
    using trim_id[of "join_sp ?parts"] ends last by simp
  have parts: "split_ws (join_sp ?parts) = ?parts"
    by (rule split_ws_join[OF _ tok]) simp
  have "(2::nat) ^ 1024 \<le> 10 ^ 310 - 1" by simp
  then have "to_double (int (digits_value ?t)) = PosInf"
    unfolding digits_value_nines by (rule to_double_overflow)
  then have rank: "parseInt ?t = PosInf"
    using parseInt_digits[OF _ digits] by simp
  have one: "parse_line (join_sp ?parts)
      = Parsed \<lparr>rank = PosInf, name = u16 ''A'', position = u16 ''QB''\<rparr>"
    unfolding parse_line_def trim parts
    using ends
    by (simp only: Let_def nth_Cons_0 rank)
       (simp add: check_fields_def isNaN_def slice_middle_def u16_def)
  have "10 \<notin> set (join_sp ?parts)" by (auto simp: u16_def)
  then have pieces: "split_on 10 (join_sp ?parts) = [join_sp ?parts]" by (rule split_on_none)
  have "parse_lines [join_sp ?parts] []
      = \<lparr>players = [\<lparr>rank = PosInf, name = u16 ''A'', position = u16 ''QB''\<rparr>], error = None\<rparr>"
    by (simp only: parse_lines.simps one line_outcome.case append_Nil)
  then have huge: "parsePlayerText text_huge_rank
      = \<lparr>players = [\<lparr>rank = PosInf, name = u16 ''A'', position = u16 ''QB''\<rparr>], error = None\<rparr>"
    unfolding line parsePlayerText_def trim pieces .
  have small: "parsePlayerText (u16 ''0 A QB'')
     = \<lparr>players = [\<lparr>rank = Num 0, name = u16 ''A'', position = u16 ''QB''\<rparr>], error = None\<rparr>
   \<and> parsePlayerText (u16 ''-5 A QB'')
     = \<lparr>players = [\<lparr>rank = Num (- 5), name = u16 ''A'', position = u16 ''QB''\<rparr>], error = None\<rparr>"
    by (simp add: eval_simps)
  show ?thesis using small huge by blast
qed

section \<open>The unreachable part of the combined check\<close>

text \<open>
  C10: for a non-blank line whose trimmed form splits into at least three tokens, every
  token is non-empty, so the name and the position are non-empty; the combined check
  fails exactly when \<open>parseInt\<close> of the first token is \<open>NaN\<close>, and so does the line.
\<close>

theorem invalid_format_unreachable:
  assumes "trim line \<noteq> []" and "parts = split_ws (trim line)" and "3 \<le> length parts"
  shows "(\<forall>t \<in> set parts. t \<noteq> [])
     \<and> join_sp (slice_middle parts) \<noteq> []
     \<and> parts ! (length parts - 1) \<noteq> []
     \<and> (check_fields line (parseInt (parts ! 0)) (join_sp (slice_middle parts))
           (parts ! (length parts - 1)) \<noteq> None) = isNaN (parseInt (parts ! 0))
     \<and> (parse_line line = Failed (unparsed_msg line)) = isNaN (parseInt (parts ! 0))"
proof -
  have tokens: "\<forall>t \<in> set parts. t \<noteq> []"
    using tokens_nonempty[OF assms(1)] assms(2) by blast
  have three: "3 \<le> length (split_ws (trim line))" using assms(2,3) by simp
  have nm: "join_sp (slice_middle parts) \<noteq> []"
    using fields_nonempty(1)[OF assms(1) three] assms(2) by simp
  have pos: "parts ! (length parts - 1) \<noteq> []"
    using fields_nonempty(2)[OF assms(1) three] assms(2) by simp
  have chk: "(check_fields line (parseInt (parts ! 0)) (join_sp (slice_middle parts))
           (parts ! (length parts - 1)) \<noteq> None) = isNaN (parseInt (parts ! 0))"
    using nm pos by (simp add: check_fields_def)
  have branch: "(parse_line line = Failed (unparsed_msg line)) = isNaN (parseInt (parts ! 0))"
    using parse_line_unparsed[OF assms(1) three] assms(2) by simp
  show ?thesis using tokens nm pos chk branch by blast
qed

theorem invalid_format_unreachable_witness:
  "trim (u16 '' x Bo Jo RB '') \<noteq> []
   \<and> 3 \<le> length (split_ws (trim (u16 '' x Bo Jo RB '')))
   \<and> split_ws (trim (u16 '' x Bo Jo RB '')) = [u16 ''x'', u16 ''Bo'', u16 ''Jo'', u16 ''RB'']
   \<and> join_sp (slice_middle (split_ws (trim (u16 '' x Bo Jo RB '')))) \<noteq> []
   \<and> isNaN (parseInt (split_ws (trim (u16 '' x Bo Jo RB '')) ! 0))
   \<and> parse_line (u16 '' x Bo Jo RB '') = Failed (unparsed_msg (u16 '' x Bo Jo RB ''))"
proof -
  have parts: "split_ws (trim (u16 '' x Bo Jo RB '')) = [u16 ''x'', u16 ''Bo'', u16 ''Jo'', u16 ''RB'']"
    by (simp add: eval_simps)
  have h1: "trim (u16 '' x Bo Jo RB '') \<noteq> []" by (simp add: eval_simps)
  have h3: "3 \<le> length (split_ws (trim (u16 '' x Bo Jo RB '')))" by (simp add: parts)
  have nan: "isNaN (parseInt (split_ws (trim (u16 '' x Bo Jo RB '')) ! 0))" by (simp add: eval_simps)
  show ?thesis
    using invalid_format_unreachable[OF h1 refl h3] h1 h3 parts nan by simp
qed

section \<open>Round trip\<close>

text \<open>
  C8, as the code has it: whenever the parser succeeds on a text and every rank of the
  result is a finite number of magnitude below \<open>10 ^ 21\<close>, writing each record as the
  line \<open>{rank} {name} {position}\<close>, joining the lines and parsing again succeeds and
  gives the same player list. From \<open>10 ^ 21\<close> on a number is written in exponent
  notation, of which \<open>parseInt\<close> reads the first digit only.
\<close>

theorem parse_roundtrip:
  assumes "error (parsePlayerText text) = None"
    and "\<forall>p \<in> set (players (parsePlayerText text)). \<exists>n. rank p = Num n \<and> \<bar>n\<bar> < 10 ^ 21"
  shows "parsePlayerText (serialize (players (parsePlayerText text))) = parsePlayerText text
     \<and> error (parsePlayerText (serialize (players (parsePlayerText text)))) = None
     \<and> players (parsePlayerText (serialize (players (parsePlayerText text))))
         = players (parsePlayerText text)"
proof -
  let ?ps = "players (parsePlayerText text)"
  have "wf_player p" if member: "p \<in> set ?ps" for p
  proof -
    obtain line where line: "parse_line line = Parsed p"
      using parse_lines_players[of p "split_on 10 (trim text)" "[]"] member
      by (auto simp: parsePlayerText_def)
    obtain n where "rank p = Num n" "\<bar>n\<bar> < 10 ^ 21" using assms(2) member by blast
    then show ?thesis by (rule parse_line_wf[OF line])
  qed
  then have "parsePlayerText (serialize ?ps) = \<lparr>players = ?ps, error = None\<rparr>"
    by (intro parse_serialize) blast
  then show ?thesis using assms(1) by simp
qed

theorem parse_roundtrip_witness:
  "error (parsePlayerText text_three_lines) = None
   \<and> map rank (players (parsePlayerText text_three_lines)) = [Num 1, Num 2, Num (- 3)]
   \<and> serialize (players (parsePlayerText text_three_lines))
       = u16 ''1 Christian McCaffrey RB'' @ [10] @ u16 ''2 Tyreek Hill WR'' @ [10]
         @ u16 ''-3 A B C QB''
   \<and> parsePlayerText (u16 ''1 Christian McCaffrey RB'' @ [10] @ u16 ''2 Tyreek Hill WR'' @ [10]
         @ u16 ''-3 A B C QB'')
       = parsePlayerText text_three_lines"
proof -
  have parsed: "parsePlayerText text_three_lines =
      \<lparr>players = [\<lparr>rank = Num 1, name = u16 ''Christian McCaffrey'', position = u16 ''RB''\<rparr>,
                  \<lparr>rank = Num 2, name = u16 ''Tyreek Hill'', position = u16 ''WR''\<rparr>,
                  \<lparr>rank = Num (- 3), name = u16 ''A B C'', position = u16 ''QB''\<rparr>],
       error = None\<rparr>"
    by (simp add: text_three_lines_def eval_simps)
  have h1: "error (parsePlayerText text_three_lines) = None" by (simp add: parsed)
  have h2: "\<forall>p \<in> set (players (parsePlayerText text_three_lines)).
      \<exists>n. rank p = Num n \<and> \<bar>n\<bar> < 10 ^ 21"
    by (simp add: parsed)
  have digit: "positive_to_string (Suc 0) = [49]" "positive_to_string 2 = [50]"
      "positive_to_string 3 = [51]"
    using positive_to_string_digit[of "Suc 0"] positive_to_string_digit[of 2]
      positive_to_string_digit[of 3] by simp_all
  have ser: "serialize (players (parsePlayerText text_three_lines))
       = u16 ''1 Christian McCaffrey RB'' @ [10] @ u16 ''2 Tyreek Hill WR'' @ [10]
         @ u16 ''-3 A B C QB''"
    by (simp add: parsed serialize_def serialize_player_def number_to_string_def digit u16_def)
  show ?thesis using parse_roundtrip[OF h1 h2] h1 ser by (simp add: parsed)
qed

theorem roundtrip_large_rank_counterexample:
  "parsePlayerText text_large_rank
     = \<lparr>players = [\<lparr>rank = Num 1000000000000000000000, name = u16 ''A'', position = u16 ''QB''\<rparr>],
        error = None\<rparr>
   \<and> serialize (players (parsePlayerText text_large_rank)) = u16 ''1e+21 A QB''
   \<and> parsePlayerText (serialize (players (parsePlayerText text_large_rank)))
     = \<lparr>players = [\<lparr>rank = Num 1, name = u16 ''A'', position = u16 ''QB''\<rparr>], error = None\<rparr>
   \<and> parsePlayerText (serialize (players (parsePlayerText text_large_rank)))
     \<noteq> parsePlayerText text_large_rank"
proof -
  have big: "to_double 1000000000000000000000 = Num 1000000000000000000000"
    using ten21_exact by simp
  have parsed: "parsePlayerText text_large_rank
     = \<lparr>players = [\<lparr>rank = Num 1000000000000000000000, name = u16 ''A'', position = u16 ''QB''\<rparr>],
        error = None\<rparr>"
    by (simp add: text_large_rank_def u16_def is_ws_def trim_def parsePlayerText_def
        parse_line_def check_fields_def parseInt_def is_digit_def digits_value_def
        slice_middle_def isNaN_def Let_def big)
  have ser: "serialize (players (parsePlayerText text_large_rank)) = u16 ''1e+21 A QB''"
    by (simp add: parsed serialize_def serialize_player_def number_to_string_ten21 u16_def)
  have again: "parsePlayerText (u16 ''1e+21 A QB'')
     = \<lparr>players = [\<lparr>rank = Num 1, name = u16 ''A'', position = u16 ''QB''\<rparr>], error = None\<rparr>"
    by (simp add: eval_simps)
  show ?thesis using parsed ser again by simp
qed

end
